theory Spec2Isabelle
  imports Complex_Main
begin

section \<open>Values of the host language\<close>

text \<open>
  The library is dynamically typed: every constructor and method first inspects the
  run-time shape of what it was handed (\<^verbatim>\<open>typeof name !== "string"\<close>,
  \<^verbatim>\<open>Number.isInteger(arity)\<close>, \<^verbatim>\<open>x instanceof Variable\<close>) and throws
  when the shape is wrong. The type \<open>jsval\<close> is the universe of such arguments.

  A function symbol (class \<^verbatim>\<open>Func\<close>) carries the two fields \<^verbatim>\<open>symbol_name\<close>
  and \<^verbatim>\<open>arity\<close>; its constructor stores them only after the name was seen to be a
  string and the arity an integer, so a stored arity is an \<open>int\<close>.
\<close>

record func =
  symbol_name :: string
  arity :: int

datatype jsterm =
    Variable string
  | Constant string
  | FuncTerm func "jsterm list"

datatype jsnum = Finite rat | NaN | PosInfinity | NegInfinity

type_synonym subs = "(jsterm \<times> jsterm) list"

datatype jsval =
    JUndefined
  | JNull
  | JBool bool
  | JNumber jsnum
  | JString string
  | JArray "jsval list"
  | JFunc func
  | JTerm jsterm
  | JSubstitution subs

text \<open>
  One constructor for each \<^verbatim>\<open>throw Error("...")\<close> that can be reached with arguments
  of the types used below. The class \<^verbatim>\<open>Equation\<close>, which nothing else uses, is left out.
\<close>

datatype error =
    VariableNameMustBeString
  | ConstantNameMustBeString
  | FunctionNameMustBeString
  | ArityMustBeInteger
  | WrongNumberOfArguments int nat
  | FirstArgumentMustBeFunc
  | ArgsMustBeArrayOfTerms
  | FirstArgumentMustBeVariable
  | SecondArgumentMustBeTerm
  | VariableAlreadyExists
  | ArgumentMustBeVariable
  | ArgumentMustBeSubstitution
  | ContainsOnlyConsidersVariables

section \<open>Term representation\<close>

definition new_Variable :: "jsval \<Rightarrow> error + jsterm" where
  "new_Variable name =
     (case name of JString s \<Rightarrow> Inr (Variable s) | _ \<Rightarrow> Inl VariableNameMustBeString)"

definition new_Constant :: "jsval \<Rightarrow> error + jsterm" where
  "new_Constant name =
     (case name of JString s \<Rightarrow> Inr (Constant s) | _ \<Rightarrow> Inl ConstantNameMustBeString)"

text \<open>
  \<^verbatim>\<open>Number.isInteger\<close>: true exactly for a value of type number that is finite and
  has no fractional part.
\<close>

fun Number_isInteger :: "jsval \<Rightarrow> bool" where
  "Number_isInteger (JNumber (Finite r)) = (of_int \<lfloor>r\<rfloor> = r)"
| "Number_isInteger _ = False"

text \<open>
  \<^verbatim>\<open>new Func(name, arity)\<close>: the name check comes first, then the arity check; nothing
  else is tested.
\<close>

definition new_Func :: "jsval \<Rightarrow> jsval \<Rightarrow> error + func" where
  "new_Func name ar =
     (case name of
        JString s \<Rightarrow>
          (if \<not> Number_isInteger ar then Inl ArityMustBeInteger
           else (case ar of
                   JNumber (Finite r) \<Rightarrow> Inr \<lparr>symbol_name = s, arity = \<lfloor>r\<rfloor>\<rparr>
                 | _ \<Rightarrow> Inl ArityMustBeInteger))
      | _ \<Rightarrow> Inl FunctionNameMustBeString)"

fun isTerm :: "jsval \<Rightarrow> bool" where
  "isTerm (JTerm t) = True"
| "isTerm _ = False"

text \<open>
  \<^verbatim>\<open>a.map((v, i) => [v, b[i]])\<close>: one pair for every element of \<open>a\<close>; reading
  \<open>b\<close> past its end gives \<^verbatim>\<open>undefined\<close>.
\<close>

fun zip_js :: "'a list \<Rightarrow> jsval list \<Rightarrow> ('a \<times> jsval) list" where
  "zip_js [] b = []"
| "zip_js (v # a) [] = (v, JUndefined) # zip_js a []"
| "zip_js (v # a) (w # b) = (v, w) # zip_js a b"

text \<open>
  The elements of an array as terms. \<^verbatim>\<open>new FuncTerm\<close> stores the array it was given
  once every element has passed \<^verbatim>\<open>isTerm\<close>; on such an array nothing is dropped here.
\<close>

fun the_terms :: "jsval list \<Rightarrow> jsterm list" where
  "the_terms [] = []"
| "the_terms (JTerm t # xs) = t # the_terms xs"
| "the_terms (_ # xs) = the_terms xs"

text \<open>\<^verbatim>\<open>new FuncTerm(func, args)\<close>.\<close>

definition new_FuncTerm :: "jsval \<Rightarrow> jsval \<Rightarrow> error + jsterm" where
  "new_FuncTerm fn args =
     (case fn of
        JFunc f \<Rightarrow>
          (case args of
             JArray xs \<Rightarrow>
               (if list_all isTerm xs then Inr (FuncTerm f (the_terms xs))
                else Inl ArgsMustBeArrayOfTerms)
           | _ \<Rightarrow> Inl ArgsMustBeArrayOfTerms)
      | _ \<Rightarrow> Inl FirstArgumentMustBeFunc)"

text \<open>
  \<^verbatim>\<open>Func.prototype._call\<close>, which runs when a symbol is invoked as \<^verbatim>\<open>f(t1, ..., tn)\<close>.
\<close>

definition call :: "func \<Rightarrow> jsval list \<Rightarrow> error + jsterm" where
  "call f args =
     (if int (length args) \<noteq> arity f
      then Inl (WrongNumberOfArguments (arity f) (length args))
      else (case new_Func (JString (symbol_name f)) (JNumber (Finite (of_int (arity f)))) of
              Inl e \<Rightarrow> Inl e
            | Inr f' \<Rightarrow> new_FuncTerm (JFunc f') (JArray args)))"

text \<open>\<^verbatim>\<open>Func.prototype.isEqual\<close>.\<close>

fun Func_isEqual :: "func \<Rightarrow> jsval \<Rightarrow> bool" where
  "Func_isEqual this (JFunc f) = (symbol_name f = symbol_name this \<and> arity f = arity this)"
| "Func_isEqual this _ = False"

text \<open>
  The three \<^verbatim>\<open>isEqual\<close> methods of \<^verbatim>\<open>Variable\<close>, \<^verbatim>\<open>Constant\<close> and
  \<^verbatim>\<open>FuncTerm\<close>, selected by the class of the receiver. The argument may be any value,
  \<^verbatim>\<open>undefined\<close> included.
\<close>

function isEqual :: "jsterm \<Rightarrow> jsval \<Rightarrow> bool" where
  "isEqual (Variable n) v = (case v of JTerm (Variable m) \<Rightarrow> m = n | _ \<Rightarrow> False)"
| "isEqual (Constant n) c = (case c of JTerm (Constant m) \<Rightarrow> m = n | _ \<Rightarrow> False)"
| "isEqual (FuncTerm f as) t =
     (case t of
        JTerm (FuncTerm g bs) \<Rightarrow>
          list_all (\<lambda>x. isEqual (fst x) (snd x)) (zip_js as (map JTerm bs))
      | _ \<Rightarrow> False)"
  by pat_completeness auto
termination
proof (relation "measure (\<lambda>(t, v). size t)")
  show "wf (measure (\<lambda>(t, v). size t))" by simp
next
  fix f :: func and as :: "jsterm list" and t x2 x32 x
  assume "x \<in> set (zip_js as (map JTerm x32))"
  moreover have "\<And>b. x \<in> set (zip_js as b) \<Longrightarrow> fst x \<in> set as"
  proof -
    fix b show "x \<in> set (zip_js as b) \<Longrightarrow> fst x \<in> set as"
      by (induction as b rule: zip_js.induct) auto
  qed
  ultimately have "fst x \<in> set as" by blast
  then have "size (fst x) < Suc (size_list size as)"
    by (simp add: less_Suc_eq_le size_list_estimation')
  then show "((fst x, snd x), FuncTerm f as, t) \<in> measure (\<lambda>(t, v). size t)"
    by (simp add: case_prod_beta)
qed

text \<open>\<^verbatim>\<open>Array.prototype.join\<close> on an array of strings.\<close>

fun join :: "string \<Rightarrow> string list \<Rightarrow> string" where
  "join sep [] = []"
| "join sep [x] = x"
| "join sep (x # y # ys) = x @ sep @ join sep (y # ys)"

fun toString :: "jsterm \<Rightarrow> string" where
  "toString (Variable n) = n"
| "toString (Constant n) = n"
| "toString (FuncTerm f args) =
     (if arity f = 0 then symbol_name f
      else symbol_name f @ ''('' @ join '','' (map toString args) @ '')'')"

text \<open>
  \<^verbatim>\<open>cloneTerm\<close>. Its argument is a term, so the guard \<^verbatim>\<open>!isTerm(t)\<close> cannot
  fire; the symbol of an application is rebuilt from its two fields, which are a string
  and an integer, so \<^verbatim>\<open>new Func\<close> cannot throw either.
\<close>

fun cloneTerm :: "jsterm \<Rightarrow> jsterm" where
  "cloneTerm (Variable n) = Variable n"
| "cloneTerm (Constant n) = Constant n"
| "cloneTerm (FuncTerm f args) =
     FuncTerm \<lparr>symbol_name = symbol_name f, arity = arity f\<rparr> (map cloneTerm args)"

section \<open>Substitutions\<close>

text \<open>
  A \<^verbatim>\<open>Substitution\<close> object has the single field \<^verbatim>\<open>subs\<close>, an array of
  two-element arrays \<^verbatim>\<open>[variable, term]\<close>. A method that mutates the array is modelled
  as a function returning the new array, or the error it throws.
\<close>

definition toString_subs :: "subs \<Rightarrow> string" where
  "toString_subs this =
     ''{'' @ join '', '' (map (\<lambda>vt. toString (fst vt) @ '' -> '' @ toString (snd vt)) this) @ ''}''"

definition add :: "jsval \<Rightarrow> jsval \<Rightarrow> subs \<Rightarrow> error + subs" where
  "add variable trm this =
     (case variable of
        JTerm (Variable n) \<Rightarrow>
          (case trm of
             JTerm t \<Rightarrow>
               (if list_ex (\<lambda>vt. isEqual (fst vt) variable) this then Inl VariableAlreadyExists
                else Inr (this @ [(Variable n, t)]))
           | _ \<Rightarrow> Inl SecondArgumentMustBeTerm)
      | _ \<Rightarrow> Inl FirstArgumentMustBeVariable)"

text \<open>
  The scan of \<^verbatim>\<open>remove\<close> visits every index and keeps the last one whose key is equal
  to the variable; \<open>None\<close> stands for the initial \<^verbatim>\<open>-1\<close>. Then
  \<^verbatim>\<open>splice(indexToRemove, 1)\<close> deletes that one entry.
\<close>

definition indexToRemove :: "jsval \<Rightarrow> subs \<Rightarrow> nat option" where
  "indexToRemove variable this =
     fold (\<lambda>i r. if isEqual (fst (this ! i)) variable then Some i else r) [0..<length this] None"

definition remove :: "jsval \<Rightarrow> subs \<Rightarrow> error + subs" where
  "remove variable this =
     (case variable of
        JTerm (Variable n) \<Rightarrow>
          (case indexToRemove variable this of
             None \<Rightarrow> Inr this
           | Some i \<Rightarrow> Inr (take i this @ drop (Suc i) this))
      | _ \<Rightarrow> Inl ArgumentMustBeVariable)"

definition contains :: "jsval \<Rightarrow> subs \<Rightarrow> error + bool" where
  "contains variable this =
     (case variable of
        JTerm (Variable n) \<Rightarrow> Inr (list_ex (\<lambda>vt. isEqual (fst vt) variable) this)
      | _ \<Rightarrow> Inl ContainsOnlyConsidersVariables)"

text \<open>
  The loop of \<^verbatim>\<open>apply\<close> over the bindings returns at the first key equal to the
  variable; \<open>None\<close> means that the loop ran to its end.
\<close>

fun first_binding :: "subs \<Rightarrow> jsterm \<Rightarrow> jsterm option" where
  "first_binding [] t = None"
| "first_binding ((v, tNew) # rest) t =
     (if isEqual v (JTerm t) then Some tNew else first_binding rest t)"

text \<open>\<^verbatim>\<open>Substitution.prototype.apply\<close>, on a term.\<close>

fun apply_subst :: "subs \<Rightarrow> jsterm \<Rightarrow> jsterm" where
  "apply_subst this (FuncTerm f args) =
     (if length this = 0 then cloneTerm (FuncTerm f args)
      else FuncTerm \<lparr>symbol_name = symbol_name f, arity = arity f\<rparr> (map (apply_subst this) args))"
| "apply_subst this (Variable n) =
     (if length this = 0 then cloneTerm (Variable n)
      else (case first_binding this (Variable n) of
              Some tNew \<Rightarrow> cloneTerm tNew
            | None \<Rightarrow> cloneTerm (Variable n)))"
| "apply_subst this (Constant n) =
     (if length this = 0 then cloneTerm (Constant n) else cloneTerm (Constant n))"

text \<open>
  \<^verbatim>\<open>cloneSubstitution\<close>: every pair of the source is cloned and handed to
  \<^verbatim>\<open>add\<close> of the new substitution, whose error, if any, propagates.
\<close>

fun cloneSubstitution_loop :: "subs \<Rightarrow> subs \<Rightarrow> error + subs" where
  "cloneSubstitution_loop [] newSubstitution = Inr newSubstitution"
| "cloneSubstitution_loop ((v, t) # rest) newSubstitution =
     (case add (JTerm (cloneTerm v)) (JTerm (cloneTerm t)) newSubstitution of
        Inl e \<Rightarrow> Inl e
      | Inr s \<Rightarrow> cloneSubstitution_loop rest s)"

definition cloneSubstitution :: "subs \<Rightarrow> error + subs" where
  "cloneSubstitution sub = cloneSubstitution_loop sub []"

text \<open>
  The four loops of \<^verbatim>\<open>compose\<close>. The first one fills the new substitution with the
  receiver's bindings rewritten under \<open>sigma\<close>.
\<close>

fun compose_rewrite :: "subs \<Rightarrow> subs \<Rightarrow> subs \<Rightarrow> error + subs" where
  "compose_rewrite [] sigma newSubstitution = Inr newSubstitution"
| "compose_rewrite ((v, t) # rest) sigma newSubstitution =
     (case add (JTerm (cloneTerm v)) (JTerm (apply_subst sigma t)) newSubstitution of
        Inl e \<Rightarrow> Inl e
      | Inr s \<Rightarrow> compose_rewrite rest sigma s)"

text \<open>
  The second loop walks the new substitution and deletes each of its keys from the copy
  of \<open>sigma\<close>.
\<close>

fun compose_restrict :: "subs \<Rightarrow> subs \<Rightarrow> error + subs" where
  "compose_restrict [] newSigma = Inr newSigma"
| "compose_restrict ((v, t) # rest) newSigma =
     (case contains (JTerm v) newSigma of
        Inl e \<Rightarrow> Inl e
      | Inr True \<Rightarrow>
          (case remove (JTerm v) newSigma of
             Inl e \<Rightarrow> Inl e
           | Inr s \<Rightarrow> compose_restrict rest s)
      | Inr False \<Rightarrow> compose_restrict rest newSigma)"

text \<open>
  The third loop is \<^verbatim>\<open>for (const [v, t] of newSubstitution.subs)\<close> with
  \<^verbatim>\<open>newSubstitution.remove(v)\<close> in its body: the array iterator holds an index,
  reads the array's current length before every step, and the body shortens the very
  array that is being walked. \<open>i\<close> is the iterator's index.
\<close>

function compose_trivial :: "nat \<Rightarrow> subs \<Rightarrow> error + subs" where
  "compose_trivial i newSubstitution =
     (if i < length newSubstitution then
        (if isEqual (fst (newSubstitution ! i)) (JTerm (snd (newSubstitution ! i))) then
           (case remove (JTerm (fst (newSubstitution ! i))) newSubstitution of
              Inl e \<Rightarrow> Inl e
            | Inr s \<Rightarrow> compose_trivial (Suc i) s)
         else compose_trivial (Suc i) newSubstitution)
      else Inr newSubstitution)"
  by pat_completeness auto
termination
proof (relation "measure (\<lambda>(i, s). length s - i)")
  show "wf (measure (\<lambda>(i, s). length s - i))" by simp
next
  fix i :: nat and newSubstitution x2 :: subs
  assume lt: "i < length newSubstitution"
    and rm: "remove (JTerm (fst (newSubstitution ! i))) newSubstitution = Inr x2"
  from rm have "length x2 \<le> length newSubstitution"
    by (auto simp: remove_def split: jsval.splits jsterm.splits option.splits)
  with lt show "((Suc i, x2), i, newSubstitution) \<in> measure (\<lambda>(i, s). length s - i)"
    by simp
next
  fix i :: nat and newSubstitution :: subs
  assume "i < length newSubstitution"
  then show "((Suc i, newSubstitution), i, newSubstitution) \<in> measure (\<lambda>(i, s). length s - i)"
    by simp
qed

declare compose_trivial.simps [simp del]

text \<open>The fourth loop adds what is left of the copy of \<open>sigma\<close>.\<close>

fun compose_union :: "subs \<Rightarrow> subs \<Rightarrow> error + subs" where
  "compose_union [] newSubstitution = Inr newSubstitution"
| "compose_union ((v, t) # rest) newSubstitution =
     (case add (JTerm v) (JTerm t) newSubstitution of
        Inl e \<Rightarrow> Inl e
      | Inr s \<Rightarrow> compose_union rest s)"

text \<open>\<^verbatim>\<open>Substitution.prototype.compose\<close>: \<open>compose this sigma\<close> is \<^verbatim>\<open>this.compose(sigma)\<close>.\<close>

definition compose :: "subs \<Rightarrow> subs \<Rightarrow> error + subs" where
  "compose this sigma =
     (if length this = 0 then cloneSubstitution sigma
      else
        (case compose_rewrite this sigma [] of
           Inl e \<Rightarrow> Inl e
         | Inr newSubstitution \<Rightarrow>
             (case cloneSubstitution sigma of
                Inl e \<Rightarrow> Inl e
              | Inr newSigma0 \<Rightarrow>
                  (case compose_restrict newSubstitution newSigma0 of
                     Inl e \<Rightarrow> Inl e
                   | Inr newSigma \<Rightarrow>
                       (case compose_trivial 0 newSubstitution of
                          Inl e \<Rightarrow> Inl e
                        | Inr pruned \<Rightarrow> compose_union newSigma pruned)))))"

section \<open>Object identities and the store\<close>

text \<open>
  The sections above treat terms and binding arrays as values. That cannot say which
  object a method writes to, nor whether a returned value shares objects with an
  argument. Here every object created by \<^verbatim>\<open>new\<close> gets an identity from a counter.

  A call ends with a value, with an error thrown by the library, or with the
  \<^verbatim>\<open>TypeError\<close> of the host language when a method reads \<^verbatim>\<open>this.subs\<close> of
  something that is no substitution.
\<close>

datatype herror = Thrown error | TypeError

type_synonym addr = nat

text \<open>
  A term object with the identity of each of its objects: the first field of a
  constructor is the identity of the object itself, and the second field of
  \<open>HFuncTerm\<close> is the identity of its \<^verbatim>\<open>Func\<close> object. The source assigns the fields
  of \<^verbatim>\<open>Variable\<close>, \<^verbatim>\<open>Constant\<close>, \<^verbatim>\<open>Func\<close> and \<^verbatim>\<open>FuncTerm\<close> in their
  constructors and nowhere else, so these objects are held as values. The array of
  arguments belongs to its \<^verbatim>\<open>FuncTerm\<close>: \<^verbatim>\<open>cloneTerm\<close> and \<^verbatim>\<open>apply\<close> build it
  with \<^verbatim>\<open>map\<close> right before they construct the object.
\<close>

datatype hterm =
    HVariable addr string
  | HConstant addr string
  | HFuncTerm addr addr func "hterm list"

type_synonym hsubs = "(hterm \<times> hterm) list"

text \<open>
  The one field that the library mutates is the array \<^verbatim>\<open>subs\<close> of a
  \<^verbatim>\<open>Substitution\<close> (\<^verbatim>\<open>push\<close> in \<^verbatim>\<open>add\<close>, \<^verbatim>\<open>splice\<close> in \<^verbatim>\<open>remove\<close>).
  The store maps the identity of each substitution object to the current content of
  its array; \<open>next_id\<close> is the identity that the next \<^verbatim>\<open>new\<close> hands out.
\<close>

record state =
  next_id :: addr
  store :: "addr \<Rightarrow> hsubs option"

text \<open>Forgetting the identities gives the terms and arrays of the sections above.\<close>

fun erase :: "hterm \<Rightarrow> jsterm" where
  "erase (HVariable a n) = Variable n"
| "erase (HConstant a n) = Constant n"
| "erase (HFuncTerm a fa f args) = FuncTerm f (map erase args)"

definition erase_subs :: "hsubs \<Rightarrow> subs" where
  "erase_subs arr = map (\<lambda>vt. (erase (fst vt), erase (snd vt))) arr"

text \<open>The identities of all objects of a term, and of all terms of an array.\<close>

fun ids :: "hterm \<Rightarrow> addr set" where
  "ids (HVariable a n) = {a}"
| "ids (HConstant a n) = {a}"
| "ids (HFuncTerm a fa f args) = {a, fa} \<union> (\<Union>t \<in> set args. ids t)"

definition ids_subs :: "hsubs \<Rightarrow> addr set" where
  "ids_subs arr = (\<Union>vt \<in> set arr. ids (fst vt) \<union> ids (snd vt))"

text \<open>Allocation of one object.\<close>

definition fresh :: "state \<Rightarrow> addr \<times> state" where
  "fresh st = (next_id st, st\<lparr>next_id := Suc (next_id st)\<rparr>)"

text \<open>
  \<^verbatim>\<open>cloneTerm\<close>: the arguments are cloned first, then \<^verbatim>\<open>new Func\<close> and
  \<^verbatim>\<open>new FuncTerm\<close> are evaluated, in this order.
\<close>

fun h_cloneTerm :: "hterm \<Rightarrow> state \<Rightarrow> hterm \<times> state"
  and h_cloneTerm_args :: "hterm list \<Rightarrow> state \<Rightarrow> hterm list \<times> state" where
  "h_cloneTerm (HVariable a n) st = (case fresh st of (b, st1) \<Rightarrow> (HVariable b n, st1))"
| "h_cloneTerm (HConstant a n) st = (case fresh st of (b, st1) \<Rightarrow> (HConstant b n, st1))"
| "h_cloneTerm (HFuncTerm a fa f args) st =
     (case h_cloneTerm_args args st of (args', st1) \<Rightarrow>
        (case fresh st1 of (fb, st2) \<Rightarrow>
           (case fresh st2 of (b, st3) \<Rightarrow>
              (HFuncTerm b fb \<lparr>symbol_name = symbol_name f, arity = arity f\<rparr> args', st3))))"
| "h_cloneTerm_args [] st = ([], st)"
| "h_cloneTerm_args (t # ts) st =
     (case h_cloneTerm t st of (t', st1) \<Rightarrow>
        (case h_cloneTerm_args ts st1 of (ts', st2) \<Rightarrow> (t' # ts', st2)))"

text \<open>
  \<^verbatim>\<open>apply\<close>. Equality of terms reads names and shapes only, so it is taken on the
  erased terms. Nothing in the body of \<^verbatim>\<open>apply\<close> writes to an array, so the recursive
  calls are given the array that the first call read from \<^verbatim>\<open>this.subs\<close>.
\<close>

fun h_first_binding :: "hsubs \<Rightarrow> hterm \<Rightarrow> hterm option" where
  "h_first_binding [] t = None"
| "h_first_binding ((v, tNew) # rest) t =
     (if isEqual (erase v) (JTerm (erase t)) then Some tNew else h_first_binding rest t)"

fun h_apply_subs :: "hsubs \<Rightarrow> hterm \<Rightarrow> state \<Rightarrow> hterm \<times> state"
  and h_apply_args :: "hsubs \<Rightarrow> hterm list \<Rightarrow> state \<Rightarrow> hterm list \<times> state" where
  "h_apply_subs arr (HFuncTerm a fa f args) st =
     (if length arr = 0 then h_cloneTerm (HFuncTerm a fa f args) st
      else (case h_apply_args arr args st of (args', st1) \<Rightarrow>
              (case fresh st1 of (fb, st2) \<Rightarrow>
                 (case fresh st2 of (b, st3) \<Rightarrow>
                    (HFuncTerm b fb \<lparr>symbol_name = symbol_name f, arity = arity f\<rparr> args', st3)))))"
| "h_apply_subs arr (HVariable a n) st =
     (if length arr = 0 then h_cloneTerm (HVariable a n) st
      else (case h_first_binding arr (HVariable a n) of
              Some tNew \<Rightarrow> h_cloneTerm tNew st
            | None \<Rightarrow> h_cloneTerm (HVariable a n) st))"
| "h_apply_subs arr (HConstant a n) st =
     (if length arr = 0 then h_cloneTerm (HConstant a n) st else h_cloneTerm (HConstant a n) st)"
| "h_apply_args arr [] st = ([], st)"
| "h_apply_args arr (t # ts) st =
     (case h_apply_subs arr t st of (t', st1) \<Rightarrow>
        (case h_apply_args arr ts st1 of (ts', st2) \<Rightarrow> (t' # ts', st2)))"

definition h_apply :: "addr \<Rightarrow> hterm \<Rightarrow> state \<Rightarrow> (herror + hterm) \<times> state" where
  "h_apply this t st =
     (case store st this of
        None \<Rightarrow> (Inl TypeError, st)
      | Some arr \<Rightarrow> (case h_apply_subs arr t st of (t', st1) \<Rightarrow> (Inr t', st1)))"

text \<open>\<^verbatim>\<open>new Substitution()\<close> and the three methods on the array of the receiver.\<close>

definition h_new_Substitution :: "state \<Rightarrow> addr \<times> state" where
  "h_new_Substitution st =
     (case fresh st of (a, st1) \<Rightarrow> (a, st1\<lparr>store := (store st1)(a \<mapsto> [])\<rparr>))"

definition h_add :: "addr \<Rightarrow> hterm \<Rightarrow> hterm \<Rightarrow> state \<Rightarrow> (herror + unit) \<times> state" where
  "h_add this variable trm st =
     (case variable of
        HVariable a n \<Rightarrow>
          (case store st this of
             None \<Rightarrow> (Inl TypeError, st)
           | Some arr \<Rightarrow>
               (if list_ex (\<lambda>vt. isEqual (erase (fst vt)) (JTerm (erase variable))) arr
                then (Inl (Thrown VariableAlreadyExists), st)
                else (Inr (), st\<lparr>store := (store st)(this \<mapsto> arr @ [(variable, trm)])\<rparr>)))
      | _ \<Rightarrow> (Inl (Thrown FirstArgumentMustBeVariable), st))"

definition h_remove :: "addr \<Rightarrow> hterm \<Rightarrow> state \<Rightarrow> (herror + unit) \<times> state" where
  "h_remove this variable st =
     (case variable of
        HVariable a n \<Rightarrow>
          (case store st this of
             None \<Rightarrow> (Inl TypeError, st)
           | Some arr \<Rightarrow>
               (case indexToRemove (JTerm (erase variable)) (erase_subs arr) of
                  None \<Rightarrow> (Inr (), st)
                | Some i \<Rightarrow> (Inr (), st\<lparr>store := (store st)(this \<mapsto> take i arr @ drop (Suc i) arr)\<rparr>)))
      | _ \<Rightarrow> (Inl (Thrown ArgumentMustBeVariable), st))"

definition h_contains :: "addr \<Rightarrow> hterm \<Rightarrow> state \<Rightarrow> (herror + bool) \<times> state" where
  "h_contains this variable st =
     (case variable of
        HVariable a n \<Rightarrow>
          (case store st this of
             None \<Rightarrow> (Inl TypeError, st)
           | Some arr \<Rightarrow>
               (Inr (list_ex (\<lambda>vt. isEqual (erase (fst vt)) (JTerm (erase variable))) arr), st))
      | _ \<Rightarrow> (Inl (Thrown ContainsOnlyConsidersVariables), st))"

text \<open>
  \<^verbatim>\<open>cloneSubstitution\<close>. Its loop walks the array of \<open>sub\<close> as it stood when the
  loop began and writes to the new substitution. In \<^verbatim>\<open>add(cloneTerm(v), cloneTerm(t))\<close>
  the arguments are evaluated from left to right.
\<close>

fun h_cloneSubstitution_loop :: "hsubs \<Rightarrow> addr \<Rightarrow> state \<Rightarrow> (herror + unit) \<times> state" where
  "h_cloneSubstitution_loop [] newSubstitution st = (Inr (), st)"
| "h_cloneSubstitution_loop ((v, t) # rest) newSubstitution st =
     (case h_cloneTerm v st of (v', st1) \<Rightarrow>
        (case h_cloneTerm t st1 of (t', st2) \<Rightarrow>
           (case h_add newSubstitution v' t' st2 of
              (Inl e, st3) \<Rightarrow> (Inl e, st3)
            | (Inr u, st3) \<Rightarrow> h_cloneSubstitution_loop rest newSubstitution st3)))"

definition h_cloneSubstitution :: "addr \<Rightarrow> state \<Rightarrow> (herror + addr) \<times> state" where
  "h_cloneSubstitution sub st =
     (case store st sub of
        None \<Rightarrow> (Inl (Thrown ArgumentMustBeSubstitution), st)
      | Some arr \<Rightarrow>
          (case h_new_Substitution st of (newSubstitution, st1) \<Rightarrow>
             (case h_cloneSubstitution_loop arr newSubstitution st1 of
                (Inl e, st2) \<Rightarrow> (Inl e, st2)
              | (Inr u, st2) \<Rightarrow> (Inr newSubstitution, st2))))"

text \<open>
  The four loops of \<^verbatim>\<open>compose\<close>, and \<^verbatim>\<open>compose\<close> itself. The bodies of the
  first, second and fourth loop write to a substitution other than the one whose array
  the loop walks, so these loops are given the array as it stands when they begin.
\<close>

fun h_compose_rewrite :: "hsubs \<Rightarrow> addr \<Rightarrow> addr \<Rightarrow> state \<Rightarrow> (herror + unit) \<times> state" where
  "h_compose_rewrite [] sigma newSubstitution st = (Inr (), st)"
| "h_compose_rewrite ((v, t) # rest) sigma newSubstitution st =
     (case h_cloneTerm v st of (v', st1) \<Rightarrow>
        (case h_apply sigma t st1 of
           (Inl e, st2) \<Rightarrow> (Inl e, st2)
         | (Inr t', st2) \<Rightarrow>
             (case h_add newSubstitution v' t' st2 of
                (Inl e, st3) \<Rightarrow> (Inl e, st3)
              | (Inr u, st3) \<Rightarrow> h_compose_rewrite rest sigma newSubstitution st3)))"

fun h_compose_restrict :: "hsubs \<Rightarrow> addr \<Rightarrow> state \<Rightarrow> (herror + unit) \<times> state" where
  "h_compose_restrict [] newSigma st = (Inr (), st)"
| "h_compose_restrict ((v, t) # rest) newSigma st =
     (case h_contains newSigma v st of
        (Inl e, st1) \<Rightarrow> (Inl e, st1)
      | (Inr True, st1) \<Rightarrow>
          (case h_remove newSigma v st1 of
             (Inl e, st2) \<Rightarrow> (Inl e, st2)
           | (Inr u, st2) \<Rightarrow> h_compose_restrict rest newSigma st2)
      | (Inr False, st1) \<Rightarrow> h_compose_restrict rest newSigma st1)"

text \<open>
  The third loop reads the array of the new substitution from the store at every step,
  since its own body shortens that array.
\<close>

definition array_length :: "state \<Rightarrow> addr \<Rightarrow> nat" where
  "array_length st a = (case store st a of None \<Rightarrow> 0 | Some arr \<Rightarrow> length arr)"

function h_compose_trivial :: "nat \<Rightarrow> addr \<Rightarrow> state \<Rightarrow> (herror + unit) \<times> state" where
  "h_compose_trivial i newSubstitution st =
     (case store st newSubstitution of
        None \<Rightarrow> (Inl TypeError, st)
      | Some arr \<Rightarrow>
          (if i < length arr then
             (if isEqual (erase (fst (arr ! i))) (JTerm (erase (snd (arr ! i)))) then
                (case h_remove newSubstitution (fst (arr ! i)) st of
                   (Inl e, st1) \<Rightarrow> (Inl e, st1)
                 | (Inr u, st1) \<Rightarrow> h_compose_trivial (Suc i) newSubstitution st1)
              else h_compose_trivial (Suc i) newSubstitution st)
           else (Inr (), st)))"
  by pat_completeness auto
termination
proof (relation "measure (\<lambda>(i, a, st). array_length st a - i)")
  show "wf (measure (\<lambda>(i, a, st). array_length st a - i))" by simp
next
  fix i newSubstitution arr x u and st y :: state
  assume s: "store st newSubstitution = Some arr" and lt: "i < length arr"
    and rm: "(x, y) = h_remove newSubstitution (fst (arr ! i)) st" and "x = Inr u"
  from rm s have "array_length y newSubstitution \<le> length arr"
    by (auto simp: h_remove_def array_length_def split: hterm.splits option.splits)
  with s lt show "((Suc i, newSubstitution, y), i, newSubstitution, st)
      \<in> measure (\<lambda>(i, a, st). array_length st a - i)"
    by (simp add: array_length_def)
next
  fix i newSubstitution arr and st :: state
  assume "store st newSubstitution = Some arr" and "i < length arr"
  then show "((Suc i, newSubstitution, st), i, newSubstitution, st)
      \<in> measure (\<lambda>(i, a, st). array_length st a - i)"
    by (simp add: array_length_def)
qed

declare h_compose_trivial.simps [simp del]

fun h_compose_union :: "hsubs \<Rightarrow> addr \<Rightarrow> state \<Rightarrow> (herror + unit) \<times> state" where
  "h_compose_union [] newSubstitution st = (Inr (), st)"
| "h_compose_union ((v, t) # rest) newSubstitution st =
     (case h_add newSubstitution v t st of
        (Inl e, st1) \<Rightarrow> (Inl e, st1)
      | (Inr u, st1) \<Rightarrow> h_compose_union rest newSubstitution st1)"

definition the_array :: "state \<Rightarrow> addr \<Rightarrow> hsubs" where
  "the_array st a = (case store st a of None \<Rightarrow> [] | Some arr \<Rightarrow> arr)"

definition h_compose :: "addr \<Rightarrow> addr \<Rightarrow> state \<Rightarrow> (herror + addr) \<times> state" where
  "h_compose this sigma st =
     (case store st sigma of
        None \<Rightarrow> (Inl (Thrown ArgumentMustBeSubstitution), st)
      | Some sarr \<Rightarrow>
     (case store st this of
        None \<Rightarrow> (Inl TypeError, st)
      | Some arr \<Rightarrow>
          (if length arr = 0 then h_cloneSubstitution sigma st
           else
             (case h_new_Substitution st of (newSubstitution, st1) \<Rightarrow>
             (case h_compose_rewrite arr sigma newSubstitution st1 of
                (Inl e, st2) \<Rightarrow> (Inl e, st2)
              | (Inr u, st2) \<Rightarrow>
             (case h_cloneSubstitution sigma st2 of
                (Inl e, st3) \<Rightarrow> (Inl e, st3)
              | (Inr newSigma, st3) \<Rightarrow>
             (case h_compose_restrict (the_array st3 newSubstitution) newSigma st3 of
                (Inl e, st4) \<Rightarrow> (Inl e, st4)
              | (Inr u, st4) \<Rightarrow>
             (case h_compose_trivial 0 newSubstitution st4 of
                (Inl e, st5) \<Rightarrow> (Inl e, st5)
              | (Inr u, st5) \<Rightarrow>
             (case h_compose_union (the_array st5 newSigma) newSubstitution st5 of
                (Inl e, st6) \<Rightarrow> (Inl e, st6)
              | (Inr u, st6) \<Rightarrow> (Inr newSubstitution, st6))))))))))"

section \<open>Notions used in the statements\<close>

text \<open>\<^verbatim>\<open>v instanceof Variable\<close>, for a term \<open>v\<close>.\<close>

fun isVariable :: "jsterm \<Rightarrow> bool" where
  "isVariable (Variable n) = True"
| "isVariable _ = False"

text \<open>
  What \<^verbatim>\<open>add\<close> maintains for the array of a substitution: every key is a
  \<^verbatim>\<open>Variable\<close>, and no two entries have equal keys.
\<close>

definition valid_subs :: "subs \<Rightarrow> bool" where
  "valid_subs s = (list_all (\<lambda>vt. isVariable (fst vt)) s \<and> distinct (map fst s))"

text \<open>The test \<^verbatim>\<open>v.isEqual(t)\<close> of the third loop of \<^verbatim>\<open>compose\<close>, on a pair.\<close>

definition trivial :: "jsterm \<times> jsterm \<Rightarrow> bool" where
  "trivial vt = isEqual (fst vt) (JTerm (snd vt))"

text \<open>
  A closed form of the third loop, used in the proofs only. When the walk deletes the
  entry under its index, the entries behind it move down by one while the index moves
  up by one, so the entry that followed the deleted one is never tested.
\<close>

fun skipping_prune :: "subs \<Rightarrow> subs" where
  "skipping_prune [] = []"
| "skipping_prune [p] = (if trivial p then [] else [p])"
| "skipping_prune (p # q # rest) =
     (if trivial p then q # skipping_prune rest else p # skipping_prune (q # rest))"

text \<open>
  The receiver's bindings with every bound term rewritten under \<open>sigma\<close>: the content
  of the new substitution after the first loop of \<^verbatim>\<open>compose\<close>.
\<close>

definition rewritten :: "subs \<Rightarrow> subs \<Rightarrow> subs" where
  "rewritten this sigma = map (\<lambda>vt. (fst vt, apply_subst sigma (snd vt))) this"

text \<open>
  Between two states, no array other than the one of object \<open>a\<close> differs, and the
  counter has not gone back.
\<close>

definition only_changes :: "addr \<Rightarrow> state \<Rightarrow> state \<Rightarrow> bool" where
  "only_changes a st st' = ((\<forall>b. b \<noteq> a \<longrightarrow> store st' b = store st b) \<and> next_id st \<le> next_id st')"

text \<open>
  Every object in the array of \<open>a\<close> has an identity that was handed out at \<open>n\<close> or later.
\<close>

definition fresh_at :: "addr \<Rightarrow> state \<Rightarrow> addr \<Rightarrow> bool" where
  "fresh_at n st a = (\<forall>arr. store st a = Some arr \<longrightarrow> ids_subs arr \<subseteq> {n..})"

text \<open>
  A step that writes to the array of \<open>a\<close> only, keeps it fresh from \<open>n\<close> on, and does
  not make the object disappear.
\<close>

definition mutates :: "addr \<Rightarrow> addr \<Rightarrow> state \<Rightarrow> state \<Rightarrow> bool" where
  "mutates n a st st' =
     (only_changes a st st' \<and> (fresh_at n st a \<longrightarrow> fresh_at n st' a) \<and>
      (store st a \<noteq> None \<longrightarrow> store st' a \<noteq> None))"

text \<open>
  What holds inside \<^verbatim>\<open>compose\<close> after the new substitution was allocated in state
  \<open>st\<close>: every object that existed then is as it was, and the new substitution
  (whose identity is the counter of \<open>st\<close>) holds fresh objects only.
\<close>

definition compose_inv :: "state \<Rightarrow> state \<Rightarrow> bool" where
  "compose_inv st s =
     ((\<forall>b<next_id st. store s b = store st b) \<and> next_id st < next_id s \<and>
      fresh_at (next_id st) s (next_id st) \<and> store s (next_id st) \<noteq> None)"

text \<open>
  The outcome of a method on the array of object \<open>a\<close> agrees with the outcome of the
  same method on values.
\<close>

definition corresponds :: "(herror + unit) \<Rightarrow> state \<Rightarrow> addr \<Rightarrow> error + subs \<Rightarrow> bool" where
  "corresponds res st a pure =
     (case pure of
        Inl e \<Rightarrow> res = Inl (Thrown e)
      | Inr s \<Rightarrow> res = Inr () \<and> (\<exists>arr. store st a = Some arr \<and> erase_subs arr = s))"

text \<open>
  A store with two substitutions, \<open>{x -> y}\<close> as object 0 and \<open>{y -> a}\<close> as object 3;
  the terms in their arrays are the objects 1, 2, 4 and 5.
\<close>

definition example_state :: state where
  "example_state =
     \<lparr>next_id = 6,
      store = (\<lambda>a. None)(0 \<mapsto> [(HVariable 1 ''x'', HVariable 2 ''y'')],
                          3 \<mapsto> [(HVariable 4 ''y'', HConstant 5 ''a'')])\<rparr>"

section \<open>Auxiliary facts\<close>

lemma func_rebuild: "\<lparr>symbol_name = symbol_name f, arity = arity f\<rparr> = (f::func)"
  by simp

lemma cloneTerm_id: "cloneTerm t = t"
  by (induction t) (simp_all add: map_idI)

lemma isEqual_Variable_right: "isEqual k (JTerm (Variable n)) \<longleftrightarrow> k = Variable n"
  by (cases k) auto

lemma isEqual_Variable_left: "isEqual (Variable n) v \<longleftrightarrow> v = JTerm (Variable n)"
  by (auto split: jsval.splits jsterm.splits)

lemma bound_iff: "list_ex (\<lambda>vt. isEqual (fst vt) (JTerm (Variable n))) s \<longleftrightarrow> Variable n \<in> fst ` set s"
  by (force simp: list_ex_iff isEqual_Variable_right)

lemma add_Variable:
  "add (JTerm (Variable n)) (JTerm t) s =
     (if Variable n \<in> fst ` set s then Inl VariableAlreadyExists else Inr (s @ [(Variable n, t)]))"
  unfolding add_def by (simp only: bound_iff jsval.case jsterm.case)

lemma indexToRemove_snoc:
  "indexToRemove v (s @ [x]) = (if isEqual (fst x) v then Some (length s) else indexToRemove v s)"
proof -
  have "fold (\<lambda>i r. if isEqual (fst ((s @ [x]) ! i)) v then Some i else r) [0..<length s] None
      = fold (\<lambda>i r. if isEqual (fst (s ! i)) v then Some i else r) [0..<length s] None"
    by (rule fold_cong) (auto simp: nth_append)
  then show ?thesis by (simp add: indexToRemove_def)
qed

lemma indexToRemove_bound: "indexToRemove v s = Some i \<Longrightarrow> i < length s"
proof (induction s arbitrary: i rule: rev_induct)
  case Nil
  then show ?case by (simp add: indexToRemove_def)
next
  case (snoc x s)
  then show ?case by (auto simp: indexToRemove_snoc less_Suc_eq split: if_splits)
qed

lemma indexToRemove_None: "Variable n \<notin> fst ` set s \<Longrightarrow> indexToRemove (JTerm (Variable n)) s = None"
proof (induction s rule: rev_induct)
  case Nil
  then show ?case by (simp add: indexToRemove_def)
next
  case (snoc x s)
  then show ?case by (auto simp: indexToRemove_snoc isEqual_Variable_right)
qed

lemma remove_distinct:
  "distinct (map fst s) \<Longrightarrow> remove (JTerm (Variable n)) s = Inr (filter (\<lambda>vt. fst vt \<noteq> Variable n) s)"
proof (induction s rule: rev_induct)
  case Nil
  then show ?case by (simp add: remove_def indexToRemove_def)
next
  case (snoc x s)
  show ?case
  proof (cases "fst x = Variable n")
    case True
    with snoc.prems have "Variable n \<notin> fst ` set s" by auto
    then have "filter (\<lambda>vt. fst vt \<noteq> Variable n) s = s" by (force simp: filter_id_conv)
    with True show ?thesis
      by (simp add: remove_def indexToRemove_snoc isEqual_Variable_right)
  next
    case False
    from snoc have IH: "remove (JTerm (Variable n)) s = Inr (filter (\<lambda>vt. fst vt \<noteq> Variable n) s)" by simp
    show ?thesis
    proof (cases "indexToRemove (JTerm (Variable n)) s")
      case None
      with IH False show ?thesis
        by (simp add: remove_def indexToRemove_snoc isEqual_Variable_right)
    next
      case (Some i)
      then have "i < length s" by (rule indexToRemove_bound)
      with IH False Some show ?thesis
        by (simp add: remove_def indexToRemove_snoc isEqual_Variable_right Suc_diff_le)
    qed
  qed
qed

lemma contains_Variable: "contains (JTerm (Variable n)) s = Inr (Variable n \<in> fst ` set s)"
  unfolding contains_def by (simp only: bound_iff jsval.case jsterm.case)

lemma valid_subs_Cons:
  "valid_subs (p # s) \<longleftrightarrow> isVariable (fst p) \<and> fst p \<notin> fst ` set s \<and> valid_subs s"
  by (auto simp: valid_subs_def)

lemma isVariable_ex: "isVariable v \<Longrightarrow> \<exists>n. v = Variable n"
  by (cases v) auto

lemma cloneSubstitution_loop_valid:
  "valid_subs s \<Longrightarrow> fst ` set s \<inter> fst ` set acc = {} \<Longrightarrow>
     cloneSubstitution_loop s acc = Inr (acc @ s)"
proof (induction s arbitrary: acc)
  case Nil
  then show ?case by simp
next
  case (Cons p s)
  obtain v t where p: "p = (v, t)" by (cases p)
  from Cons.prems p obtain n where v: "v = Variable n"
    by (auto simp: valid_subs_Cons dest: isVariable_ex)
  from Cons.prems p v have fresh: "Variable n \<notin> fst ` set acc" by auto
  from Cons.prems p v have "valid_subs s" and "fst ` set s \<inter> fst ` set (acc @ [(Variable n, t)]) = {}"
    by (auto simp: valid_subs_Cons)
  then have "cloneSubstitution_loop s (acc @ [(Variable n, t)]) = Inr ((acc @ [(Variable n, t)]) @ s)"
    by (rule Cons.IH)
  with fresh show ?case by (simp add: p v add_Variable cloneTerm_id)
qed

lemma cloneSubstitution_valid: "valid_subs s \<Longrightarrow> cloneSubstitution s = Inr s"
  by (simp add: cloneSubstitution_def cloneSubstitution_loop_valid)

lemma compose_rewrite_valid:
  "valid_subs s \<Longrightarrow> fst ` set s \<inter> fst ` set acc = {} \<Longrightarrow>
     compose_rewrite s sigma acc = Inr (acc @ rewritten s sigma)"
proof (induction s arbitrary: acc)
  case Nil
  then show ?case by (simp add: rewritten_def)
next
  case (Cons p s)
  obtain v t where p: "p = (v, t)" by (cases p)
  from Cons.prems p obtain n where v: "v = Variable n"
    by (auto simp: valid_subs_Cons dest: isVariable_ex)
  from Cons.prems p v have fresh: "Variable n \<notin> fst ` set acc" by auto
  from Cons.prems p v have "valid_subs s"
    and "fst ` set s \<inter> fst ` set (acc @ [(Variable n, apply_subst sigma t)]) = {}"
    by (auto simp: valid_subs_Cons)
  then have "compose_rewrite s sigma (acc @ [(Variable n, apply_subst sigma t)])
      = Inr ((acc @ [(Variable n, apply_subst sigma t)]) @ rewritten s sigma)"
    by (rule Cons.IH)
  with fresh show ?case by (simp add: p v add_Variable cloneTerm_id rewritten_def)
qed

lemma compose_union_valid:
  "valid_subs s \<Longrightarrow> fst ` set s \<inter> fst ` set acc = {} \<Longrightarrow>
     compose_union s acc = Inr (acc @ s)"
proof (induction s arbitrary: acc)
  case Nil
  then show ?case by simp
next
  case (Cons p s)
  obtain v t where p: "p = (v, t)" by (cases p)
  from Cons.prems p obtain n where v: "v = Variable n"
    by (auto simp: valid_subs_Cons dest: isVariable_ex)
  from Cons.prems p v have fresh: "Variable n \<notin> fst ` set acc" by auto
  from Cons.prems p v have "valid_subs s" and "fst ` set s \<inter> fst ` set (acc @ [(Variable n, t)]) = {}"
    by (auto simp: valid_subs_Cons)
  then have "compose_union s (acc @ [(Variable n, t)]) = Inr ((acc @ [(Variable n, t)]) @ s)"
    by (rule Cons.IH)
  with fresh show ?case by (simp add: p v add_Variable)
qed

lemma valid_subs_filter: "valid_subs s \<Longrightarrow> valid_subs (filter P s)"
  by (simp add: valid_subs_def list_all_iff distinct_map_filter)

lemma compose_restrict_valid:
  "list_all (\<lambda>vt. isVariable (fst vt)) r \<Longrightarrow> distinct (map fst s) \<Longrightarrow>
     compose_restrict r s = Inr (filter (\<lambda>vt. fst vt \<notin> fst ` set r) s)"
proof (induction r arbitrary: s)
  case Nil
  then show ?case by simp
next
  case (Cons p r)
  obtain v t where p: "p = (v, t)" by (cases p)
  from Cons.prems p obtain n where v: "v = Variable n"
    by (auto dest: isVariable_ex)
  let ?s' = "filter (\<lambda>vt. fst vt \<noteq> Variable n) s"
  from Cons.prems have "list_all (\<lambda>vt. isVariable (fst vt)) r" and "distinct (map fst ?s')"
    by (simp_all add: distinct_map_filter)
  then have IH: "compose_restrict r ?s' = Inr (filter (\<lambda>vt. fst vt \<notin> fst ` set r) ?s')"
    by (rule Cons.IH)
  have flt: "filter (\<lambda>vt. fst vt \<notin> fst ` set r) ?s' = filter (\<lambda>vt. fst vt \<notin> fst ` set (p # r)) s"
    by (auto simp: p v intro: filter_cong)
  show ?case
  proof (cases "Variable n \<in> fst ` set s")
    case True
    with IH flt Cons.prems show ?thesis
      by (simp add: p v contains_Variable remove_distinct)
  next
    case False
    then have "?s' = s" by (force simp: filter_id_conv)
    with IH flt False show ?thesis
      by (simp add: p v contains_Variable)
  qed
qed

lemma remove_at_index:
  assumes "distinct (map fst s)" and "i < length s" and "fst (s ! i) = Variable n"
  shows "remove (JTerm (Variable n)) s = Inr (take i s @ drop (Suc i) s)"
proof -
  have s: "s = take i s @ s ! i # drop (Suc i) s"
    using assms(2) by (simp add: id_take_nth_drop)
  from assms(1) have d: "distinct (map fst (take i s @ s ! i # drop (Suc i) s))"
    using s by simp
  then have "fst (s ! i) \<notin> fst ` set (take i s)" and "fst (s ! i) \<notin> fst ` set (drop (Suc i) s)"
    by auto
  then have a: "filter (\<lambda>vt. fst vt \<noteq> Variable n) (take i s) = take i s"
    and b: "filter (\<lambda>vt. fst vt \<noteq> Variable n) (drop (Suc i) s) = drop (Suc i) s"
    using assms(3) by (force simp: filter_id_conv)+
  have "filter (\<lambda>vt. fst vt \<noteq> Variable n) s
      = filter (\<lambda>vt. fst vt \<noteq> Variable n) (take i s @ s ! i # drop (Suc i) s)"
    using s by simp
  also have "\<dots> = take i s @ drop (Suc i) s"
    using a b assms(3) by simp
  finally show ?thesis using assms(1) by (simp add: remove_distinct)
qed

lemma valid_subs_remove_nth: "valid_subs s \<Longrightarrow> valid_subs (take i s @ drop (Suc i) s)"
proof -
  assume v: "valid_subs s"
  have sub: "set (take i s @ drop (Suc i) s) \<subseteq> set s"
    by (auto dest: in_set_takeD in_set_dropD)
  have "distinct (map fst (take i s @ drop (Suc i) s))"
  proof (cases "i < length s")
    case True
    then have "s = take i s @ s ! i # drop (Suc i) s" by (simp add: id_take_nth_drop)
    then have "distinct (map fst (take i s @ s ! i # drop (Suc i) s))"
      using v by (simp add: valid_subs_def)
    then show ?thesis by auto
  next
    case False
    then show ?thesis using v by (simp add: valid_subs_def)
  qed
  with v sub show ?thesis by (auto simp: valid_subs_def list_all_iff)
qed

lemma skipping_prune_keep: "\<not> trivial p \<Longrightarrow> skipping_prune (p # rest) = p # skipping_prune rest"
  by (cases rest) simp_all

lemma skipping_prune_skip:
  "trivial p \<Longrightarrow> skipping_prune (p # rest) = (case rest of [] \<Rightarrow> [] | q # r \<Rightarrow> q # skipping_prune r)"
  by (cases rest) simp_all

lemma compose_trivial_valid:
  "valid_subs s \<Longrightarrow> compose_trivial i s = Inr (take i s @ skipping_prune (drop i s))"
proof (induction i s rule: compose_trivial.induct)
  case (1 i s)
  show ?case
  proof (cases "i < length s")
    case False
    then show ?thesis by (simp add: compose_trivial.simps[of i s])
  next
    case lt: True
    then have dr: "drop i s = s ! i # drop (Suc i) s" by (simp add: Cons_nth_drop_Suc)
    show ?thesis
    proof (cases "trivial (s ! i)")
      case False
      then have ne: "\<not> isEqual (fst (s ! i)) (JTerm (snd (s ! i)))" by (simp add: trivial_def)
      from "1.IH"(2)[OF lt ne "1.prems"]
      have "compose_trivial (Suc i) s = Inr (take (Suc i) s @ skipping_prune (drop (Suc i) s))" .
      with lt ne False dr show ?thesis
        by (simp add: compose_trivial.simps[of i s] take_Suc_conv_app_nth skipping_prune_keep)
    next
      case True
      then have eq: "isEqual (fst (s ! i)) (JTerm (snd (s ! i)))" by (simp add: trivial_def)
      from "1.prems" lt obtain n where n: "fst (s ! i) = Variable n"
        by (auto simp: valid_subs_def list_all_length dest: isVariable_ex)
      let ?s' = "take i s @ drop (Suc i) s"
      have rm: "remove (JTerm (fst (s ! i))) s = Inr ?s'"
        using "1.prems" lt n by (simp add: remove_at_index valid_subs_def)
      have v': "valid_subs ?s'" using "1.prems" by (rule valid_subs_remove_nth)
      from "1.IH"(1)[OF lt eq rm v']
      have IH: "compose_trivial (Suc i) ?s' = Inr (take (Suc i) ?s' @ skipping_prune (drop (Suc i) ?s'))" .
      have len: "length (take i s) = i" using lt by simp
      show ?thesis
      proof (cases "drop (Suc i) s")
        case Nil
        then have "take (Suc i) ?s' = take i s" and "drop (Suc i) ?s' = []"
          using len by simp_all
        with IH rm lt eq True dr Nil show ?thesis
          by (simp add: compose_trivial.simps[of i s] skipping_prune_skip)
      next
        case (Cons q rest)
        then have "take (Suc i) ?s' = take i s @ [q]" and "drop (Suc i) ?s' = rest"
          using len by simp_all
        with IH rm lt eq True dr Cons show ?thesis
          by (simp add: compose_trivial.simps[of i s] skipping_prune_skip)
      qed
    qed
  qed
qed

lemma rewritten_keys: "map fst (rewritten s sigma) = map fst s"
  by (simp add: rewritten_def comp_def)

lemma valid_subs_rewritten: "valid_subs s \<Longrightarrow> valid_subs (rewritten s sigma)"
  unfolding valid_subs_def rewritten_keys by (simp add: rewritten_def list_all_iff)

lemma skipping_prune_subset: "set (skipping_prune s) \<subseteq> set s"
  by (induction s rule: skipping_prune.induct) auto

lemma skipping_prune_distinct: "distinct (map fst s) \<Longrightarrow> distinct (map fst (skipping_prune s))"
proof (induction s rule: skipping_prune.induct)
  case 1
  then show ?case by simp
next
  case (2 p)
  then show ?case by simp
next
  case (3 p q rest)
  have a: "fst ` set (skipping_prune rest) \<subseteq> fst ` set rest"
    by (rule image_mono) (rule skipping_prune_subset)
  have b: "fst ` set (skipping_prune (q # rest)) \<subseteq> fst ` set (q # rest)"
    by (rule image_mono) (rule skipping_prune_subset)
  show ?case
  proof (cases "trivial p")
    case True
    with 3 a show ?thesis by auto
  next
    case False
    with 3 b show ?thesis by auto
  qed
qed

lemma valid_subs_skipping_prune: "valid_subs s \<Longrightarrow> valid_subs (skipping_prune s)"
  using skipping_prune_subset[of s] by (auto simp: valid_subs_def list_all_iff skipping_prune_distinct)

lemma compose_closed_form:
  assumes "valid_subs this" and "valid_subs sigma"
  shows "compose this sigma =
           Inr (skipping_prune (rewritten this sigma) @ filter (\<lambda>vt. fst vt \<notin> fst ` set this) sigma)"
proof (cases "this = []")
  case True
  then show ?thesis using assms(2) by (simp add: compose_def cloneSubstitution_valid rewritten_def)
next
  case False
  let ?R = "rewritten this sigma"
  let ?S = "filter (\<lambda>vt. fst vt \<notin> fst ` set this) sigma"
  have R: "compose_rewrite this sigma [] = Inr ?R"
    using assms(1) by (simp add: compose_rewrite_valid)
  have vR: "valid_subs ?R" using assms(1) by (rule valid_subs_rewritten)
  have keys: "fst ` set ?R = fst ` set this"
    using rewritten_keys[of this sigma] by (metis list.set_map)
  have S: "compose_restrict ?R sigma = Inr ?S"
    using vR assms(2) by (simp add: compose_restrict_valid valid_subs_def keys)
  have P: "compose_trivial 0 ?R = Inr (skipping_prune ?R)"
    using vR by (simp add: compose_trivial_valid)
  have "fst ` set (skipping_prune ?R) \<subseteq> fst ` set ?R"
    by (rule image_mono) (rule skipping_prune_subset)
  moreover have "fst ` set ?S \<inter> fst ` set this = {}" by auto
  ultimately have "fst ` set ?S \<inter> fst ` set (skipping_prune ?R) = {}"
    using keys by blast
  moreover have "valid_subs ?S" using assms(2) by (rule valid_subs_filter)
  ultimately have U: "compose_union ?S (skipping_prune ?R) = Inr (skipping_prune ?R @ ?S)"
    by (rule compose_union_valid[rotated])
  show ?thesis using False R S P U assms(2)
    by (simp add: compose_def cloneSubstitution_valid)
qed



lemma key_in_domain: "(v, t) \<in> set s \<Longrightarrow> v \<in> fst ` set s"
  by force

lemma valid_subs_append:
  "valid_subs a \<Longrightarrow> valid_subs b \<Longrightarrow> fst ` set a \<inter> fst ` set b = {} \<Longrightarrow> valid_subs (a @ b)"
  by (auto simp: valid_subs_def)

lemma valid_subs_unique:
  "valid_subs s \<Longrightarrow> (v, t) \<in> set s \<Longrightarrow> (v, t') \<in> set s \<Longrightarrow> t = t'"
  by (auto simp: valid_subs_def dest: eq_key_imp_eq_value)

lemma compose_valid_result:
  assumes "valid_subs this" and "valid_subs sigma"
  shows "valid_subs (skipping_prune (rewritten this sigma) @ filter (\<lambda>vt. fst vt \<notin> fst ` set this) sigma)"
proof (rule valid_subs_append)
  show "valid_subs (skipping_prune (rewritten this sigma))"
    using assms(1) by (simp add: valid_subs_rewritten valid_subs_skipping_prune)
  show "valid_subs (filter (\<lambda>vt. fst vt \<notin> fst ` set this) sigma)"
    using assms(2) by (rule valid_subs_filter)
  have "fst ` set (skipping_prune (rewritten this sigma)) \<subseteq> fst ` set (rewritten this sigma)"
    by (rule image_mono) (rule skipping_prune_subset)
  moreover have "fst ` set (rewritten this sigma) = fst ` set this"
    using rewritten_keys[of this sigma] by (metis list.set_map)
  moreover have "fst ` set (filter (\<lambda>vt. fst vt \<notin> fst ` set this) sigma) \<inter> fst ` set this = {}"
    by auto
  ultimately show "fst ` set (skipping_prune (rewritten this sigma))
      \<inter> fst ` set (filter (\<lambda>vt. fst vt \<notin> fst ` set this) sigma) = {}"
    by blast
qed

lemma isTerm_ex: "isTerm x \<Longrightarrow> \<exists>t. x = JTerm t"
  by (cases x) auto

lemma all_terms_map: "list_all isTerm xs \<Longrightarrow> \<exists>as. xs = map JTerm as \<and> the_terms xs = as"
proof (induction xs)
  case Nil
  then show ?case by simp
next
  case (Cons x xs)
  then obtain t as where "x = JTerm t" and "xs = map JTerm as" and "the_terms xs = as"
    by (auto dest: isTerm_ex)
  then have "x # xs = map JTerm (t # as) \<and> the_terms (x # xs) = t # as" by simp
  then show ?case by (rule exI[where x = "t # as"])
qed

lemma terms_of_map: "the_terms (map JTerm as) = as"
  by (induction as) auto

lemma new_FuncTerm_iff:
  "new_FuncTerm fn xs = Inr t \<longleftrightarrow> (\<exists>g as. fn = JFunc g \<and> xs = JArray (map JTerm as) \<and> t = FuncTerm g as)"
proof
  assume a: "new_FuncTerm fn xs = Inr t"
  then obtain g where fn: "fn = JFunc g"
    by (cases fn) (auto simp: new_FuncTerm_def)
  from a fn obtain ys where xs: "xs = JArray ys"
    by (cases xs) (auto simp: new_FuncTerm_def)
  from a fn xs have all: "list_all isTerm ys" and t: "t = FuncTerm g (the_terms ys)"
    by (auto simp: new_FuncTerm_def split: if_splits)
  from all obtain as where "ys = map JTerm as" and "the_terms ys = as"
    using all_terms_map by blast
  with fn xs t show "\<exists>g as. fn = JFunc g \<and> xs = JArray (map JTerm as) \<and> t = FuncTerm g as"
    by blast
next
  assume "\<exists>g as. fn = JFunc g \<and> xs = JArray (map JTerm as) \<and> t = FuncTerm g as"
  then obtain g as where "fn = JFunc g" and "xs = JArray (map JTerm as)" and "t = FuncTerm g as"
    by blast
  then show "new_FuncTerm fn xs = Inr t"
    by (simp add: new_FuncTerm_def terms_of_map list_all_iff)
qed

lemma new_Func_integer:
  "new_Func (JString s) (JNumber (Finite (of_int n))) = Inr \<lparr>symbol_name = s, arity = n\<rparr>"
  by (simp add: new_Func_def)

lemma Number_isInteger_iff: "Number_isInteger ar \<longleftrightarrow> (\<exists>n. ar = JNumber (Finite (of_int n)))"
proof (cases ar)
  case (JNumber x)
  show ?thesis
  proof (cases x)
    case (Finite r)
    have "of_int \<lfloor>r\<rfloor> = r \<longleftrightarrow> (\<exists>n. r = of_int n)" by (metis floor_of_int)
    with JNumber Finite show ?thesis by simp
  qed (simp_all add: JNumber)
qed simp_all

lemma compose_empty_left: "valid_subs sigma \<Longrightarrow> compose [] sigma = Inr sigma"
  by (simp add: compose_def cloneSubstitution_valid)

lemma apply_subst_empty: "apply_subst [] t = t"
  by (cases t) (simp_all add: cloneTerm_id func_rebuild map_idI)

lemma compose_empty_right: "valid_subs sigma \<Longrightarrow> compose sigma [] = Inr (skipping_prune sigma)"
  by (simp add: compose_closed_form valid_subs_def rewritten_def apply_subst_empty)

lemma only_changes_refl: "only_changes a st st"
  by (simp add: only_changes_def)

lemma only_changes_trans:
  "only_changes a st st1 \<Longrightarrow> only_changes a st1 st2 \<Longrightarrow> only_changes a st st2"
  by (auto simp: only_changes_def)

lemma fresh_frame: "fresh st = (b, st1) \<Longrightarrow> b = next_id st \<and> next_id st1 = Suc (next_id st) \<and> store st1 = store st"
  by (auto simp: fresh_def)

lemma h_cloneTerm_frame:
  "h_cloneTerm t st = (t', st') \<Longrightarrow>
     store st' = store st \<and> next_id st \<le> next_id st' \<and>
     ids t' \<subseteq> {next_id st..<next_id st'} \<and> erase t' = erase t"
  and h_cloneTerm_args_frame:
  "h_cloneTerm_args ts st = (ts', st') \<Longrightarrow>
     store st' = store st \<and> next_id st \<le> next_id st' \<and>
     (\<Union>u \<in> set ts'. ids u) \<subseteq> {next_id st..<next_id st'} \<and> map erase ts' = map erase ts"
proof (induction t st and ts st arbitrary: t' st' and ts' st' rule: h_cloneTerm_h_cloneTerm_args.induct)
  case (1 a n st)
  then show ?case by (auto simp: fresh_def)
next
  case (2 a n st)
  then show ?case by (auto simp: fresh_def)
next
  case (3 a fa f args st)
  obtain args' st1 where a: "h_cloneTerm_args args st = (args', st1)" by (cases "h_cloneTerm_args args st")
  from "3.IH"[OF a] have IH: "store st1 = store st" "next_id st \<le> next_id st1"
    "(\<Union>u \<in> set args'. ids u) \<subseteq> {next_id st..<next_id st1}" "map erase args' = map erase args"
    by simp_all
  from "3.prems" a have t': "t' = HFuncTerm (Suc (next_id st1)) (next_id st1) \<lparr>symbol_name = symbol_name f, arity = arity f\<rparr> args'"
    and st': "st' = st1\<lparr>next_id := Suc (Suc (next_id st1))\<rparr>"
    by (auto simp: fresh_def)
  have "(\<Union>u \<in> set args'. ids u) \<subseteq> {next_id st..<Suc (Suc (next_id st1))}"
    using IH(3) by fastforce
  with IH t' st' show ?case by (simp add: func_rebuild)
next
  case (4 st)
  then show ?case by simp
next
  case (5 t ts st)
  obtain u st1 where a: "h_cloneTerm t st = (u, st1)" by (cases "h_cloneTerm t st")
  obtain us st2 where b: "h_cloneTerm_args ts st1 = (us, st2)" by (cases "h_cloneTerm_args ts st1")
  from "5.IH"(1)[OF a] have A: "store st1 = store st" "next_id st \<le> next_id st1"
    "ids u \<subseteq> {next_id st..<next_id st1}" "erase u = erase t" by simp_all
  from "5.IH"(2)[OF a[symmetric] b] have B: "store st2 = store st1" "next_id st1 \<le> next_id st2"
    "(\<Union>u \<in> set us. ids u) \<subseteq> {next_id st1..<next_id st2}" "map erase us = map erase ts" by simp_all
  from "5.prems" a b have r: "ts' = u # us" "st' = st2" by simp_all
  have "ids u \<subseteq> {next_id st..<next_id st2}" using A(3) B(2) by fastforce
  moreover have "(\<Union>u \<in> set us. ids u) \<subseteq> {next_id st..<next_id st2}" using B(3) A(2) by fastforce
  ultimately show ?case using A B r by simp
qed

lemma h_first_binding_erase:
  "first_binding (erase_subs arr) (erase t) = map_option erase (h_first_binding arr t)"
  by (induction arr t rule: h_first_binding.induct) (simp_all add: erase_subs_def)

lemma h_apply_subs_frame:
  "h_apply_subs arr t st = (t', st') \<Longrightarrow>
     store st' = store st \<and> next_id st \<le> next_id st' \<and>
     ids t' \<subseteq> {next_id st..<next_id st'} \<and> erase t' = apply_subst (erase_subs arr) (erase t)"
  and h_apply_args_frame:
  "h_apply_args arr ts st = (ts', st') \<Longrightarrow>
     store st' = store st \<and> next_id st \<le> next_id st' \<and>
     (\<Union>u \<in> set ts'. ids u) \<subseteq> {next_id st..<next_id st'} \<and>
     map erase ts' = map (apply_subst (erase_subs arr)) (map erase ts)"
proof (induction arr t st and arr ts st arbitrary: t' st' and ts' st' rule: h_apply_subs_h_apply_args.induct)
  case (1 arr a fa f args st)
  show ?case
  proof (cases "length arr = 0")
    case True
    with "1.prems" have "h_cloneTerm (HFuncTerm a fa f args) st = (t', st')" by simp
    from h_cloneTerm_frame[OF this] True show ?thesis
      by (simp add: erase_subs_def cloneTerm_id func_rebuild map_idI)
  next
    case False
    obtain args' st1 where a: "h_apply_args arr args st = (args', st1)" by (cases "h_apply_args arr args st")
    from "1.IH"[OF False a] have IH: "store st1 = store st" "next_id st \<le> next_id st1"
      "(\<Union>u \<in> set args'. ids u) \<subseteq> {next_id st..<next_id st1}"
      "map erase args' = map (apply_subst (erase_subs arr)) (map erase args)"
      by simp_all
    from "1.prems" a False
    have t': "t' = HFuncTerm (Suc (next_id st1)) (next_id st1) \<lparr>symbol_name = symbol_name f, arity = arity f\<rparr> args'"
      and st': "st' = st1\<lparr>next_id := Suc (Suc (next_id st1))\<rparr>"
      by (auto simp: fresh_def)
    have "(\<Union>u \<in> set args'. ids u) \<subseteq> {next_id st..<Suc (Suc (next_id st1))}"
      using IH(3) by fastforce
    moreover have "erase_subs arr \<noteq> []" using False by (simp add: erase_subs_def)
    ultimately show ?thesis using IH t' st' by (simp add: func_rebuild comp_def)
  qed
next
  case (2 arr a n st)
  show ?case
  proof (cases "length arr = 0")
    case True
    with "2.prems" have "h_cloneTerm (HVariable a n) st = (t', st')" by simp
    from h_cloneTerm_frame[OF this] True show ?thesis
      by (simp add: erase_subs_def)
  next
    case False
    then have ne: "erase_subs arr \<noteq> []" by (simp add: erase_subs_def)
    show ?thesis
    proof (cases "h_first_binding arr (HVariable a n)")
      case None
      with "2.prems" False have "h_cloneTerm (HVariable a n) st = (t', st')" by simp
      from h_cloneTerm_frame[OF this] None ne h_first_binding_erase[of arr "HVariable a n"]
      show ?thesis by simp
    next
      case (Some tNew)
      with "2.prems" False have "h_cloneTerm tNew st = (t', st')" by simp
      from h_cloneTerm_frame[OF this] Some ne h_first_binding_erase[of arr "HVariable a n"]
      show ?thesis by (simp add: cloneTerm_id)
    qed
  qed
next
  case (3 arr a n st)
  then have "h_cloneTerm (HConstant a n) st = (t', st')" by simp
  from h_cloneTerm_frame[OF this] show ?case by simp
next
  case (4 arr st)
  then show ?case by simp
next
  case (5 arr t ts st)
  obtain u st1 where a: "h_apply_subs arr t st = (u, st1)" by (cases "h_apply_subs arr t st")
  obtain us st2 where b: "h_apply_args arr ts st1 = (us, st2)" by (cases "h_apply_args arr ts st1")
  from "5.IH"(1)[OF a] have A: "store st1 = store st" "next_id st \<le> next_id st1"
    "ids u \<subseteq> {next_id st..<next_id st1}" "erase u = apply_subst (erase_subs arr) (erase t)" by simp_all
  from "5.IH"(2)[OF a[symmetric] b] have B: "store st2 = store st1" "next_id st1 \<le> next_id st2"
    "(\<Union>u \<in> set us. ids u) \<subseteq> {next_id st1..<next_id st2}"
    "map erase us = map (apply_subst (erase_subs arr)) (map erase ts)" by simp_all
  from "5.prems" a b have r: "ts' = u # us" "st' = st2" by simp_all
  have "ids u \<subseteq> {next_id st..<next_id st2}" using A(3) B(2) by fastforce
  moreover have "(\<Union>u \<in> set us. ids u) \<subseteq> {next_id st..<next_id st2}" using B(3) A(2) by fastforce
  ultimately show ?case using A B r by simp
qed

lemma h_apply_frame:
  "h_apply this t st = (res, st') \<Longrightarrow>
     store st' = store st \<and> next_id st \<le> next_id st' \<and>
     (\<forall>r. res = Inr r \<longrightarrow> ids r \<subseteq> {next_id st..<next_id st'} \<and>
        (\<exists>arr. store st this = Some arr \<and> erase r = apply_subst (erase_subs arr) (erase t)))"
proof (cases "store st this")
  case None
  assume "h_apply this t st = (res, st')"
  with None show ?thesis by (auto simp: h_apply_def)
next
  case (Some arr)
  assume a: "h_apply this t st = (res, st')"
  obtain u st1 where b: "h_apply_subs arr t st = (u, st1)" by (cases "h_apply_subs arr t st")
  from a b Some have "res = Inr u" "st' = st1" by (simp_all add: h_apply_def)
  with h_apply_subs_frame[OF b] Some show ?thesis by simp
qed

lemma h_add_frame:
  "h_add this v t st = (res, st') \<Longrightarrow>
     only_changes this st st' \<and> next_id st' = next_id st \<and>
     (\<forall>arr. store st this = Some arr \<longrightarrow>
        (case res of Inl e \<Rightarrow> store st' this = Some arr
                   | Inr u \<Rightarrow> store st' this = Some (arr @ [(v, t)])))"
  by (auto simp: h_add_def only_changes_def split: hterm.splits option.splits if_splits)

lemma h_remove_frame:
  "h_remove this v st = (res, st') \<Longrightarrow>
     only_changes this st st' \<and> next_id st' = next_id st \<and>
     (\<forall>arr. store st this = Some arr \<longrightarrow> (\<exists>arr'. store st' this = Some arr' \<and> set arr' \<subseteq> set arr))"
  by (auto simp: h_remove_def only_changes_def split: hterm.splits option.splits if_splits
      dest: in_set_takeD in_set_dropD)

lemma h_contains_frame: "h_contains this v st = (res, st') \<Longrightarrow> st' = st"
  by (auto simp: h_contains_def split: hterm.splits option.splits)

lemma mutates_refl: "mutates n a st st"
  by (simp add: mutates_def only_changes_def)

lemma mutates_trans: "mutates n a st st1 \<Longrightarrow> mutates n a st1 st2 \<Longrightarrow> mutates n a st st2"
  by (auto simp: mutates_def only_changes_def)

lemma mutates_pure: "store st' = store st \<Longrightarrow> next_id st \<le> next_id st' \<Longrightarrow> mutates n a st st'"
  by (simp add: mutates_def only_changes_def fresh_at_def)

lemma ids_subs_append: "ids_subs (arr @ [(v, t)]) = ids_subs arr \<union> ids v \<union> ids t"
  by (auto simp: ids_subs_def)

lemma ids_subs_mono: "set arr' \<subseteq> set arr \<Longrightarrow> ids_subs arr' \<subseteq> ids_subs arr"
  by (auto simp: ids_subs_def)

lemma h_add_mutates:
  assumes "h_add this v t st = (res, st')" and "ids v \<subseteq> {n..}" and "ids t \<subseteq> {n..}"
  shows "mutates n this st st'"
proof -
  from h_add_frame[OF assms(1)] have oc: "only_changes this st st'"
    and arr: "\<forall>arr. store st this = Some arr \<longrightarrow>
        (case res of Inl e \<Rightarrow> store st' this = Some arr
                   | Inr u \<Rightarrow> store st' this = Some (arr @ [(v, t)]))" by simp_all
  have "fresh_at n st this \<longrightarrow> fresh_at n st' this"
  proof (cases "store st this")
    case None
    with assms(1) have "st' = st" by (auto simp: h_add_def split: hterm.splits)
    then show ?thesis by simp
  next
    case (Some a)
    with arr assms(2,3) show ?thesis
      by (cases res) (auto simp: fresh_at_def ids_subs_append)
  qed
  moreover have "store st this \<noteq> None \<longrightarrow> store st' this \<noteq> None"
    using arr by (cases res) auto
  ultimately show ?thesis using oc by (simp add: mutates_def)
qed

lemma h_remove_mutates:
  assumes "h_remove this v st = (res, st')"
  shows "mutates n this st st'"
proof -
  from h_remove_frame[OF assms] have oc: "only_changes this st st'"
    and arr: "\<forall>arr. store st this = Some arr \<longrightarrow> (\<exists>arr'. store st' this = Some arr' \<and> set arr' \<subseteq> set arr)"
    by simp_all
  have "fresh_at n st this \<longrightarrow> fresh_at n st' this"
  proof (cases "store st this")
    case None
    with assms have "st' = st" by (auto simp: h_remove_def split: hterm.splits)
    then show ?thesis by simp
  next
    case (Some a)
    with arr obtain arr' where "store st' this = Some arr'" and "set arr' \<subseteq> set a" by blast
    with Some ids_subs_mono[of arr' a] show ?thesis by (auto simp: fresh_at_def)
  qed
  moreover have "store st this \<noteq> None \<longrightarrow> store st' this \<noteq> None"
    using arr by auto
  ultimately show ?thesis using oc by (simp add: mutates_def)
qed

lemma h_cloneSubstitution_loop_mutates:
  "h_cloneSubstitution_loop arr new st = (res, st') \<Longrightarrow> n \<le> next_id st \<Longrightarrow> mutates n new st st'"
proof (induction arr arbitrary: st)
  case Nil
  then show ?case by (simp add: mutates_refl)
next
  case (Cons p arr)
  obtain v t where p: "p = (v, t)" by (cases p)
  obtain v' st1 where a: "h_cloneTerm v st = (v', st1)" by (cases "h_cloneTerm v st")
  obtain t' st2 where b: "h_cloneTerm t st1 = (t', st2)" by (cases "h_cloneTerm t st1")
  obtain r3 st3 where c: "h_add new v' t' st2 = (r3, st3)" by (cases "h_add new v' t' st2")
  from h_cloneTerm_frame[OF a] Cons.prems(2) have A: "store st1 = store st" "next_id st \<le> next_id st1"
    "ids v' \<subseteq> {n..}" by auto
  from h_cloneTerm_frame[OF b] A(2) Cons.prems(2) have B: "store st2 = store st1" "next_id st1 \<le> next_id st2"
    "ids t' \<subseteq> {n..}" by auto
  have m1: "mutates n new st st2" using A B by (simp add: mutates_pure)
  have m2: "mutates n new st2 st3" using c A(3) B(3) by (rule h_add_mutates)
  have n3: "n \<le> next_id st3" using h_add_frame[OF c] A(2) B(2) Cons.prems(2) by simp
  show ?case
  proof (cases r3)
    case (Inl e)
    with Cons.prems(1) p a b c have "st' = st3" by simp
    with m1 m2 show ?thesis by (blast intro: mutates_trans)
  next
    case (Inr u)
    with Cons.prems(1) p a b c have "h_cloneSubstitution_loop arr new st3 = (res, st')" by simp
    from Cons.IH[OF this n3] m1 m2 show ?thesis by (blast intro: mutates_trans)
  qed
qed

lemma h_compose_rewrite_mutates:
  "h_compose_rewrite arr sigma new st = (res, st') \<Longrightarrow> n \<le> next_id st \<Longrightarrow> mutates n new st st'"
proof (induction arr arbitrary: st)
  case Nil
  then show ?case by (simp add: mutates_refl)
next
  case (Cons p arr)
  obtain v t where p: "p = (v, t)" by (cases p)
  obtain v' st1 where a: "h_cloneTerm v st = (v', st1)" by (cases "h_cloneTerm v st")
  obtain r2 st2 where b: "h_apply sigma t st1 = (r2, st2)" by (cases "h_apply sigma t st1")
  from h_cloneTerm_frame[OF a] Cons.prems(2) have A: "store st1 = store st" "next_id st \<le> next_id st1"
    "ids v' \<subseteq> {n..}" by auto
  from h_apply_frame[OF b] have B: "store st2 = store st1" "next_id st1 \<le> next_id st2"
    "\<forall>r. r2 = Inr r \<longrightarrow> ids r \<subseteq> {next_id st1..<next_id st2}" by auto
  have m1: "mutates n new st st2" using A B by (simp add: mutates_pure)
  show ?case
  proof (cases r2)
    case (Inl e)
    with Cons.prems(1) p a b have "st' = st2" by simp
    with m1 show ?thesis by simp
  next
    case (Inr t')
    with B(3) A(2) Cons.prems(2) have t': "ids t' \<subseteq> {n..}" by fastforce
    obtain r3 st3 where c: "h_add new v' t' st2 = (r3, st3)" by (cases "h_add new v' t' st2")
    have m2: "mutates n new st2 st3" using c A(3) t' by (rule h_add_mutates)
    have n3: "n \<le> next_id st3" using h_add_frame[OF c] A(2) B(2) Cons.prems(2) by simp
    show ?thesis
    proof (cases r3)
      case (Inl e)
      with Cons.prems(1) p a b c Inr have "st' = st3" by simp
      with m1 m2 show ?thesis by (blast intro: mutates_trans)
    next
      case Inr': (Inr u)
      with Cons.prems(1) p a b c Inr have "h_compose_rewrite arr sigma new st3 = (res, st')" by simp
      from Cons.IH[OF this n3] m1 m2 show ?thesis by (blast intro: mutates_trans)
    qed
  qed
qed

lemma h_compose_restrict_mutates:
  "h_compose_restrict arr newSigma st = (res, st') \<Longrightarrow> mutates n newSigma st st'"
proof (induction arr arbitrary: st)
  case Nil
  then show ?case by (simp add: mutates_refl)
next
  case (Cons p arr)
  obtain v t where p: "p = (v, t)" by (cases p)
  obtain r1 st1 where a: "h_contains newSigma v st = (r1, st1)" by (cases "h_contains newSigma v st")
  from h_contains_frame[OF a] have st1: "st1 = st" .
  show ?case
  proof (cases r1)
    case (Inl e)
    with Cons.prems p a st1 show ?thesis by (simp add: mutates_refl)
  next
    case (Inr c)
    show ?thesis
    proof (cases c)
      case False
      with Cons.prems p a st1 Inr have "h_compose_restrict arr newSigma st = (res, st')" by simp
      then show ?thesis by (rule Cons.IH)
    next
      case True
      obtain r2 st2 where b: "h_remove newSigma v st = (r2, st2)" by (cases "h_remove newSigma v st")
      have m: "mutates n newSigma st st2" using b by (rule h_remove_mutates)
      show ?thesis
      proof (cases r2)
        case (Inl e)
        with Cons.prems p a st1 Inr True b have "st' = st2" by simp
        with m show ?thesis by simp
      next
        case Inr': (Inr u)
        with Cons.prems p a st1 Inr True b have "h_compose_restrict arr newSigma st2 = (res, st')" by simp
        from Cons.IH[OF this] m show ?thesis by (blast intro: mutates_trans)
      qed
    qed
  qed
qed

lemma h_compose_trivial_mutates:
  "h_compose_trivial i new st = (res, st') \<Longrightarrow> mutates n new st st'"
proof (induction i new st rule: h_compose_trivial.induct)
  case (1 i new st)
  show ?case
  proof (cases "store st new")
    case None
    with "1.prems" show ?thesis by (simp add: h_compose_trivial.simps[of i new st] mutates_refl)
  next
    case (Some arr)
    show ?thesis
    proof (cases "i < length arr")
      case False
      with "1.prems" Some show ?thesis by (simp add: h_compose_trivial.simps[of i new st] mutates_refl)
    next
      case lt: True
      show ?thesis
      proof (cases "isEqual (erase (fst (arr ! i))) (JTerm (erase (snd (arr ! i))))")
        case False
        with "1.prems" Some lt have "h_compose_trivial (Suc i) new st = (res, st')"
          by (simp add: h_compose_trivial.simps[of i new st])
        from "1.IH"(2)[OF Some lt False this] show ?thesis .
      next
        case True
        obtain r1 st1 where a: "h_remove new (fst (arr ! i)) st = (r1, st1)"
          by (cases "h_remove new (fst (arr ! i)) st")
        have m: "mutates n new st st1" using a by (rule h_remove_mutates)
        show ?thesis
        proof (cases r1)
          case (Inl e)
          with "1.prems" Some lt True a have "st' = st1"
            by (simp add: h_compose_trivial.simps[of i new st])
          with m show ?thesis by simp
        next
          case (Inr u)
          with "1.prems" Some lt True a have "h_compose_trivial (Suc i) new st1 = (res, st')"
            by (simp add: h_compose_trivial.simps[of i new st])
          from "1.IH"(1)[OF Some lt True a[symmetric] Inr this] m show ?thesis
            by (blast intro: mutates_trans)
        qed
      qed
    qed
  qed
qed

lemma h_compose_union_mutates:
  "h_compose_union arr new st = (res, st') \<Longrightarrow> ids_subs arr \<subseteq> {n..} \<Longrightarrow> mutates n new st st'"
proof (induction arr arbitrary: st)
  case Nil
  then show ?case by (simp add: mutates_refl)
next
  case (Cons p arr)
  obtain v t where p: "p = (v, t)" by (cases p)
  from Cons.prems(2) p have vt: "ids v \<subseteq> {n..}" "ids t \<subseteq> {n..}" and rest: "ids_subs arr \<subseteq> {n..}"
    by (auto simp: ids_subs_def)
  obtain r1 st1 where a: "h_add new v t st = (r1, st1)" by (cases "h_add new v t st")
  have m: "mutates n new st st1" using a vt by (rule h_add_mutates)
  show ?case
  proof (cases r1)
    case (Inl e)
    with Cons.prems(1) p a have "st' = st1" by simp
    with m show ?thesis by simp
  next
    case (Inr u)
    with Cons.prems(1) p a have "h_compose_union arr new st1 = (res, st')" by simp
    from Cons.IH[OF this rest] m show ?thesis by (blast intro: mutates_trans)
  qed
qed

lemma h_new_Substitution_frame:
  "h_new_Substitution st = (a, st1) \<Longrightarrow>
     a = next_id st \<and> next_id st1 = Suc (next_id st) \<and> store st1 = (store st)(a \<mapsto> [])"
  by (auto simp: h_new_Substitution_def fresh_def)

lemma h_cloneSubstitution_frame:
  assumes "h_cloneSubstitution sub st = (res, st')" and "n \<le> next_id st"
  shows "only_changes (next_id st) st st' \<and>
     (\<forall>new. res = Inr new \<longrightarrow>
        new = next_id st \<and> new < next_id st' \<and> store st' new \<noteq> None \<and> fresh_at n st' new)"
proof (cases "store st sub")
  case None
  with assms(1) show ?thesis by (auto simp: h_cloneSubstitution_def only_changes_refl)
next
  case (Some arr)
  obtain new st1 where a: "h_new_Substitution st = (new, st1)" by (cases "h_new_Substitution st")
  from h_new_Substitution_frame[OF a] have A: "new = next_id st" "next_id st1 = Suc (next_id st)"
    "store st1 = (store st)(new \<mapsto> [])" by simp_all
  obtain r2 st2 where b: "h_cloneSubstitution_loop arr new st1 = (r2, st2)"
    by (cases "h_cloneSubstitution_loop arr new st1")
  from assms(2) A(2) have "n \<le> next_id st1" by simp
  with b have m: "mutates n new st1 st2" by (rule h_cloneSubstitution_loop_mutates)
  from assms(1) Some a b have st': "st' = st2" by (cases r2) (simp_all add: h_cloneSubstitution_def)
  have oc: "only_changes (next_id st) st st2"
    using m A by (auto simp: mutates_def only_changes_def)
  have f1: "fresh_at n st1 new" using A(3) by (simp add: fresh_at_def ids_subs_def)
  with m have f2: "fresh_at n st2 new" by (simp add: mutates_def)
  from m A(3) have e2: "store st2 new \<noteq> None" by (simp add: mutates_def)
  from m A(2) have lt: "new < next_id st2" using A(1) by (simp add: mutates_def only_changes_def)
  from assms(1) Some a b have "\<forall>x. res = Inr x \<longrightarrow> x = new"
    by (cases r2) (auto simp: h_cloneSubstitution_def)
  with oc f2 e2 lt st' A(1) show ?thesis by auto
qed

lemma compose_inv_mutates:
  "compose_inv st s \<Longrightarrow> mutates (next_id st) (next_id st) s s' \<Longrightarrow> compose_inv st s'"
  by (auto simp: compose_inv_def mutates_def only_changes_def)

lemma compose_inv_other:
  "compose_inv st s \<Longrightarrow> only_changes c s s' \<Longrightarrow> next_id st < c \<Longrightarrow> compose_inv st s'"
  by (auto simp: compose_inv_def only_changes_def fresh_at_def)

lemma h_compose_frame:
  assumes "h_compose this sigma st = (res, st')"
  shows "(\<forall>b<next_id st. store st' b = store st b) \<and> next_id st \<le> next_id st' \<and>
     (\<forall>r. res = Inr r \<longrightarrow> next_id st \<le> r \<and> r < next_id st' \<and>
        (\<exists>arr. store st' r = Some arr \<and> ids_subs arr \<subseteq> {next_id st..}))"
proof (cases "store st sigma")
  case None
  with assms show ?thesis by (auto simp: h_compose_def)
next
  case sg: (Some sarr)
  show ?thesis
  proof (cases "store st this")
    case None
    with assms sg show ?thesis by (auto simp: h_compose_def)
  next
    case th: (Some arr)
    show ?thesis
    proof (cases "length arr = 0")
      case True
      with assms sg th have "h_cloneSubstitution sigma st = (res, st')" by (simp add: h_compose_def)
      from h_cloneSubstitution_frame[OF this order_refl]
      show ?thesis by (auto simp: only_changes_def fresh_at_def)
    next
      case False
      let ?n = "next_id st"
      have goal: "?thesis" if "compose_inv st st'" and "\<forall>r. res = Inr r \<longrightarrow> r = ?n"
        using that by (auto simp: compose_inv_def fresh_at_def)
      obtain new st1 where a: "h_new_Substitution st = (new, st1)" by (cases "h_new_Substitution st")
      from h_new_Substitution_frame[OF a] have A: "new = ?n" "next_id st1 = Suc ?n"
        "store st1 = (store st)(new \<mapsto> [])" by simp_all
      have i1: "compose_inv st st1"
        using A by (simp add: compose_inv_def fresh_at_def ids_subs_def)
      obtain r2 st2 where b: "h_compose_rewrite arr sigma new st1 = (r2, st2)"
        by (cases "h_compose_rewrite arr sigma new st1")
      have "?n \<le> next_id st1" using A(2) by simp
      with b have "mutates ?n new st1 st2" by (rule h_compose_rewrite_mutates)
      with i1 A(1) have i2: "compose_inv st st2" by (simp add: compose_inv_mutates)
      show ?thesis
      proof (cases r2)
        case (Inl e)
        with assms sg th False a b have "st' = st2" "res = Inl e" by (simp_all add: h_compose_def)
        with i2 show ?thesis by (intro goal) simp_all
      next
        case r2: (Inr u2)
        obtain r3 st3 where c: "h_cloneSubstitution sigma st2 = (r3, st3)"
          by (cases "h_cloneSubstitution sigma st2")
        from i2 have n2: "?n \<le> next_id st2" "?n < next_id st2" by (simp_all add: compose_inv_def)
        from h_cloneSubstitution_frame[OF c n2(1)]
        have C: "only_changes (next_id st2) st2 st3"
          "\<forall>x. r3 = Inr x \<longrightarrow> x = next_id st2 \<and> x < next_id st3 \<and> store st3 x \<noteq> None \<and> fresh_at ?n st3 x"
          by simp_all
        from i2 C(1) n2(2) have i3: "compose_inv st st3" by (rule compose_inv_other)
        show ?thesis
        proof (cases r3)
          case (Inl e)
          with assms sg th False a b r2 c have "st' = st3" "res = Inl e" by (simp_all add: h_compose_def)
          with i3 show ?thesis by (intro goal) simp_all
        next
          case r3: (Inr newSigma)
          with C(2) have S: "newSigma = next_id st2" "fresh_at ?n st3 newSigma" by auto
          obtain r4 st4 where d: "h_compose_restrict (the_array st3 new) newSigma st3 = (r4, st4)"
            by (cases "h_compose_restrict (the_array st3 new) newSigma st3")
          from d have m4: "mutates ?n newSigma st3 st4" by (rule h_compose_restrict_mutates)
          then have "only_changes newSigma st3 st4" by (simp add: mutates_def)
          with i3 have i4: "compose_inv st st4" using n2(2) S(1) by (simp add: compose_inv_other)
          from m4 S(2) have f4: "fresh_at ?n st4 newSigma" by (simp add: mutates_def)
          show ?thesis
          proof (cases r4)
            case (Inl e)
            with assms sg th False a b r2 c r3 d have "st' = st4" "res = Inl e"
              by (simp_all add: h_compose_def)
            with i4 show ?thesis by (intro goal) simp_all
          next
            case r4: (Inr u4)
            obtain r5 st5 where e: "h_compose_trivial 0 new st4 = (r5, st5)"
              by (cases "h_compose_trivial 0 new st4")
            from e have m5: "mutates ?n new st4 st5" by (rule h_compose_trivial_mutates)
            with i4 A(1) have i5: "compose_inv st st5" by (simp add: compose_inv_mutates)
            from m5 A(1) S(1) n2(2) have "store st5 newSigma = store st4 newSigma"
              by (simp add: mutates_def only_changes_def)
            with f4 have f5: "fresh_at ?n st5 newSigma" by (simp add: fresh_at_def)
            have ids5: "ids_subs (the_array st5 newSigma) \<subseteq> {?n..}"
            proof (cases "store st5 newSigma")
              case None
              then show ?thesis by (simp add: the_array_def ids_subs_def)
            next
              case (Some arr5)
              with f5 have "ids_subs arr5 \<subseteq> {?n..}" unfolding fresh_at_def by blast
              with Some show ?thesis by (simp add: the_array_def)
            qed
            show ?thesis
            proof (cases r5)
              case (Inl e')
              with assms sg th False a b r2 c r3 d r4 e have "st' = st5" "res = Inl e'"
                by (simp_all add: h_compose_def)
              with i5 show ?thesis by (intro goal) simp_all
            next
              case r5: (Inr u5)
              obtain r6 st6 where f: "h_compose_union (the_array st5 newSigma) new st5 = (r6, st6)"
                by (cases "h_compose_union (the_array st5 newSigma) new st5")
              from f ids5 have "mutates ?n new st5 st6" by (rule h_compose_union_mutates)
              with i5 A(1) have i6: "compose_inv st st6" by (simp add: compose_inv_mutates)
              show ?thesis
              proof (cases r6)
                case (Inl e6)
                with assms sg th False a b r2 c r3 d r4 e r5 f have "st' = st6" "res = Inl e6"
                  by (simp_all add: h_compose_def)
                with i6 show ?thesis by (intro goal) simp_all
              next
                case (Inr u6)
                with assms sg th False a b r2 c r3 d r4 e r5 f have "st' = st6" "res = Inr new"
                  by (simp_all add: h_compose_def)
                with i6 A(1) show ?thesis by (intro goal) simp_all
              qed
            qed
          qed
        qed
      qed
    qed
  qed
qed

lemma list_ex_erase_subs:
  "list_ex (\<lambda>vt. isEqual (fst vt) x) (erase_subs arr) = list_ex (\<lambda>vt. isEqual (erase (fst vt)) x) arr"
  by (simp add: erase_subs_def list_ex_iff)

lemma erase_subs_append: "erase_subs (a @ b) = erase_subs a @ erase_subs b"
  by (simp add: erase_subs_def)

lemma erase_subs_single: "erase_subs [(v, t)] = [(erase v, erase t)]"
  by (simp add: erase_subs_def)

lemma erase_subs_remove_nth:
  "erase_subs (take i arr @ drop (Suc i) arr) = take i (erase_subs arr) @ drop (Suc i) (erase_subs arr)"
  by (simp add: erase_subs_def take_map drop_map)

lemma h_add_corresponds:
  assumes "h_add this v t st = (res, st')" and "store st this = Some arr"
  shows "corresponds res st' this (add (JTerm (erase v)) (JTerm (erase t)) (erase_subs arr))"
proof (cases v)
  case (HVariable a n)
  show ?thesis
  proof (cases "list_ex (\<lambda>vt. isEqual (erase (fst vt)) (JTerm (Variable n))) arr")
    case True
    with assms HVariable show ?thesis
      by (auto simp: h_add_def add_def corresponds_def list_ex_erase_subs)
  next
    case False
    with assms HVariable show ?thesis
      by (auto simp: h_add_def add_def corresponds_def list_ex_erase_subs erase_subs_append
          erase_subs_single)
  qed
next
  case (HConstant a n)
  with assms show ?thesis by (auto simp: h_add_def add_def corresponds_def)
next
  case (HFuncTerm a fa f args)
  with assms show ?thesis by (auto simp: h_add_def add_def corresponds_def)
qed

lemma h_remove_corresponds:
  assumes "h_remove this v st = (res, st')" and "store st this = Some arr"
  shows "corresponds res st' this (remove (JTerm (erase v)) (erase_subs arr))"
proof (cases v)
  case (HVariable a n)
  show ?thesis
  proof (cases "indexToRemove (JTerm (Variable n)) (erase_subs arr)")
    case None
    with assms HVariable show ?thesis
      by (auto simp: h_remove_def remove_def corresponds_def)
  next
    case (Some i)
    with assms HVariable show ?thesis
      by (auto simp: h_remove_def remove_def corresponds_def erase_subs_remove_nth)
  qed
next
  case (HConstant a n)
  with assms show ?thesis by (auto simp: h_remove_def remove_def corresponds_def)
next
  case (HFuncTerm a fa f args)
  with assms show ?thesis by (auto simp: h_remove_def remove_def corresponds_def)
qed

lemma h_contains_corresponds:
  assumes "h_contains this v st = (res, st')" and "store st this = Some arr"
  shows "st' = st \<and> (case contains (JTerm (erase v)) (erase_subs arr) of
           Inl e \<Rightarrow> res = Inl (Thrown e) | Inr c \<Rightarrow> res = Inr c)"
proof (cases v)
  case (HVariable a n)
  with assms show ?thesis
    by (auto simp: h_contains_def contains_def list_ex_erase_subs)
next
  case (HConstant a n)
  with assms show ?thesis by (auto simp: h_contains_def contains_def)
next
  case (HFuncTerm a fa f args)
  with assms show ?thesis by (auto simp: h_contains_def contains_def)
qed

lemma erase_subs_Cons: "erase_subs ((v, t) # arr) = (erase v, erase t) # erase_subs arr"
  by (simp add: erase_subs_def)

lemma corresponds_Inl: "pure = Inl e \<Longrightarrow> corresponds res st a pure \<Longrightarrow> res = Inl (Thrown e)"
  by (simp add: corresponds_def)

lemma corresponds_Inr:
  "pure = Inr s \<Longrightarrow> corresponds res st a pure \<Longrightarrow>
     res = Inr () \<and> (\<exists>arr. store st a = Some arr \<and> erase_subs arr = s)"
  by (simp add: corresponds_def)

lemma h_cloneSubstitution_loop_corresponds:
  "h_cloneSubstitution_loop arr new st = (res, st') \<Longrightarrow> store st new = Some acc \<Longrightarrow>
     corresponds res st' new (cloneSubstitution_loop (erase_subs arr) (erase_subs acc))"
proof (induction arr arbitrary: st acc)
  case Nil
  then show ?case by (auto simp: corresponds_def erase_subs_def)
next
  case (Cons p arr)
  obtain v t where p: "p = (v, t)" by (cases p)
  obtain v' st1 where a: "h_cloneTerm v st = (v', st1)" by (cases "h_cloneTerm v st")
  obtain t' st2 where b: "h_cloneTerm t st1 = (t', st2)" by (cases "h_cloneTerm t st1")
  obtain r3 st3 where c: "h_add new v' t' st2 = (r3, st3)" by (cases "h_add new v' t' st2")
  from h_cloneTerm_frame[OF a] h_cloneTerm_frame[OF b] Cons.prems(2)
  have s2: "store st2 new = Some acc" and ev: "erase v' = erase v" and et: "erase t' = erase t"
    by simp_all
  let ?pure = "add (JTerm (erase v)) (JTerm (erase t)) (erase_subs acc)"
  from h_add_corresponds[OF c s2] ev et have cor: "corresponds r3 st3 new ?pure" by simp
  show ?case
  proof (cases ?pure)
    case (Inl e)
    from corresponds_Inl[OF Inl cor] Cons.prems(1) p a b c have "res = Inl (Thrown e)" by simp
    with Inl p show ?thesis by (simp add: corresponds_def erase_subs_Cons cloneTerm_id)
  next
    case (Inr s3)
    from corresponds_Inr[OF Inr cor] obtain acc3 where r3: "r3 = Inr ()"
      and s3: "store st3 new = Some acc3" and e3: "erase_subs acc3 = s3" by blast
    from Cons.prems(1) p a b c r3 have "h_cloneSubstitution_loop arr new st3 = (res, st')" by simp
    from Cons.IH[OF this s3] e3 Inr p show ?thesis by (simp add: erase_subs_Cons cloneTerm_id)
  qed
qed

lemma h_compose_union_corresponds:
  "h_compose_union arr new st = (res, st') \<Longrightarrow> store st new = Some acc \<Longrightarrow>
     corresponds res st' new (compose_union (erase_subs arr) (erase_subs acc))"
proof (induction arr arbitrary: st acc)
  case Nil
  then show ?case by (auto simp: corresponds_def erase_subs_def)
next
  case (Cons p arr)
  obtain v t where p: "p = (v, t)" by (cases p)
  obtain r3 st3 where c: "h_add new v t st = (r3, st3)" by (cases "h_add new v t st")
  let ?pure = "add (JTerm (erase v)) (JTerm (erase t)) (erase_subs acc)"
  from h_add_corresponds[OF c Cons.prems(2)] have cor: "corresponds r3 st3 new ?pure" .
  show ?case
  proof (cases ?pure)
    case (Inl e)
    from corresponds_Inl[OF Inl cor] Cons.prems(1) p c have "res = Inl (Thrown e)" by simp
    with Inl p show ?thesis by (simp add: corresponds_def erase_subs_Cons)
  next
    case (Inr s3)
    from corresponds_Inr[OF Inr cor] obtain acc3 where r3: "r3 = Inr ()"
      and s3: "store st3 new = Some acc3" and e3: "erase_subs acc3 = s3" by blast
    from Cons.prems(1) p c r3 have "h_compose_union arr new st3 = (res, st')" by simp
    from Cons.IH[OF this s3] e3 Inr p show ?thesis by (simp add: erase_subs_Cons)
  qed
qed

lemma h_compose_rewrite_corresponds:
  "h_compose_rewrite arr sigma new st = (res, st') \<Longrightarrow> store st new = Some acc \<Longrightarrow>
     store st sigma = Some sarr \<Longrightarrow> sigma \<noteq> new \<Longrightarrow>
     corresponds res st' new (compose_rewrite (erase_subs arr) (erase_subs sarr) (erase_subs acc))"
proof (induction arr arbitrary: st acc)
  case Nil
  then show ?case by (auto simp: corresponds_def erase_subs_def)
next
  case (Cons p arr)
  obtain v t where p: "p = (v, t)" by (cases p)
  obtain v' st1 where a: "h_cloneTerm v st = (v', st1)" by (cases "h_cloneTerm v st")
  obtain r2 st2 where b: "h_apply sigma t st1 = (r2, st2)" by (cases "h_apply sigma t st1")
  from h_cloneTerm_frame[OF a] have s1: "store st1 = store st" and ev: "erase v' = erase v" by simp_all
  from s1 Cons.prems(3) have sg1: "store st1 sigma = Some sarr" by simp
  obtain u st2' where b': "h_apply_subs sarr t st1 = (u, st2')" by (cases "h_apply_subs sarr t st1")
  from b b' sg1 have r2: "r2 = Inr u" and st2: "st2' = st2" by (simp_all add: h_apply_def)
  from h_apply_subs_frame[OF b'] st2 have s2: "store st2 = store st1"
    and eu: "erase u = apply_subst (erase_subs sarr) (erase t)" by simp_all
  obtain r3 st3 where c: "h_add new v' u st2 = (r3, st3)" by (cases "h_add new v' u st2")
  from s1 s2 Cons.prems(2) have n2: "store st2 new = Some acc" by simp
  let ?pure = "add (JTerm (erase v)) (JTerm (apply_subst (erase_subs sarr) (erase t))) (erase_subs acc)"
  from h_add_corresponds[OF c n2] ev eu have cor: "corresponds r3 st3 new ?pure" by simp
  show ?case
  proof (cases ?pure)
    case (Inl e)
    from corresponds_Inl[OF Inl cor] Cons.prems(1) p a b r2 c have "res = Inl (Thrown e)" by simp
    with Inl p show ?thesis by (simp add: corresponds_def erase_subs_Cons cloneTerm_id)
  next
    case (Inr s3)
    from corresponds_Inr[OF Inr cor] obtain acc3 where r3: "r3 = Inr ()"
      and s3: "store st3 new = Some acc3" and e3: "erase_subs acc3 = s3" by blast
    from h_add_frame[OF c] Cons.prems(4) s1 s2 Cons.prems(3) have sg3: "store st3 sigma = Some sarr"
      by (simp add: only_changes_def)
    from Cons.prems(1) p a b r2 c r3 have "h_compose_rewrite arr sigma new st3 = (res, st')" by simp
    from Cons.IH[OF this s3 sg3 Cons.prems(4)] e3 Inr p show ?thesis
      by (simp add: erase_subs_Cons cloneTerm_id)
  qed
qed

lemma h_compose_restrict_corresponds:
  "h_compose_restrict arr newSigma st = (res, st') \<Longrightarrow> store st newSigma = Some s \<Longrightarrow>
     corresponds res st' newSigma (compose_restrict (erase_subs arr) (erase_subs s))"
proof (induction arr arbitrary: st s)
  case Nil
  then show ?case by (auto simp: corresponds_def erase_subs_def)
next
  case (Cons p arr)
  obtain v t where p: "p = (v, t)" by (cases p)
  obtain r1 st1 where a: "h_contains newSigma v st = (r1, st1)" by (cases "h_contains newSigma v st")
  from h_contains_corresponds[OF a Cons.prems(2)] have st1: "st1 = st"
    and c1: "case contains (JTerm (erase v)) (erase_subs s) of
               Inl e \<Rightarrow> r1 = Inl (Thrown e) | Inr c \<Rightarrow> r1 = Inr c" by simp_all
  show ?case
  proof (cases "contains (JTerm (erase v)) (erase_subs s)")
    case (Inl e)
    with c1 Cons.prems(1) p a have "res = Inl (Thrown e)" by simp
    with Inl p show ?thesis by (simp add: corresponds_def erase_subs_Cons)
  next
    case (Inr c)
    with c1 have r1: "r1 = Inr c" by simp
    show ?thesis
    proof (cases c)
      case False
      with Cons.prems(1) p a r1 st1 have "h_compose_restrict arr newSigma st = (res, st')" by simp
      from Cons.IH[OF this Cons.prems(2)] Inr False p show ?thesis by (simp add: erase_subs_Cons)
    next
      case True
      obtain r2 st2 where b: "h_remove newSigma v st = (r2, st2)" by (cases "h_remove newSigma v st")
      let ?pure = "remove (JTerm (erase v)) (erase_subs s)"
      from h_remove_corresponds[OF b Cons.prems(2)] have cor: "corresponds r2 st2 newSigma ?pure" .
      show ?thesis
      proof (cases ?pure)
        case Inl': (Inl e)
        from corresponds_Inl[OF Inl' cor] Cons.prems(1) p a r1 st1 True b have "res = Inl (Thrown e)"
          by simp
        with Inl' Inr True p show ?thesis by (simp add: corresponds_def erase_subs_Cons)
      next
        case Inr': (Inr s2)
        from corresponds_Inr[OF Inr' cor] obtain arr2 where r2: "r2 = Inr ()"
          and s2: "store st2 newSigma = Some arr2" and e2: "erase_subs arr2 = s2" by blast
        from Cons.prems(1) p a r1 st1 True b r2 have "h_compose_restrict arr newSigma st2 = (res, st')"
          by simp
        from Cons.IH[OF this s2] e2 Inr' Inr True p show ?thesis by (simp add: erase_subs_Cons)
      qed
    qed
  qed
qed

lemma erase_subs_nth:
  "i < length s \<Longrightarrow> erase_subs s ! i = (erase (fst (s ! i)), erase (snd (s ! i)))"
  by (simp add: erase_subs_def)

lemma h_compose_trivial_corresponds:
  "h_compose_trivial i new st = (res, st') \<Longrightarrow> store st new = Some s \<Longrightarrow>
     corresponds res st' new (compose_trivial i (erase_subs s))"
proof (induction i new st arbitrary: s rule: h_compose_trivial.induct)
  case (1 i new st)
  have len: "length (erase_subs s) = length s" by (simp add: erase_subs_def)
  show ?case
  proof (cases "i < length s")
    case False
    with "1.prems" len show ?thesis
      by (auto simp: h_compose_trivial.simps[of i new st] compose_trivial.simps[of i "erase_subs s"]
          corresponds_def)
  next
    case lt: True
    note nth = erase_subs_nth[OF lt]
    show ?thesis
    proof (cases "isEqual (erase (fst (s ! i))) (JTerm (erase (snd (s ! i))))")
      case False
      with "1.prems" lt have "h_compose_trivial (Suc i) new st = (res, st')"
        by (simp add: h_compose_trivial.simps[of i new st])
      from "1.IH"(2)[OF "1.prems"(2) lt False this "1.prems"(2)] False lt len nth show ?thesis
        by (simp add: compose_trivial.simps[of i "erase_subs s"])
    next
      case True
      obtain r1 st1 where a: "h_remove new (fst (s ! i)) st = (r1, st1)"
        by (cases "h_remove new (fst (s ! i)) st")
      let ?pure = "remove (JTerm (erase (fst (s ! i)))) (erase_subs s)"
      from h_remove_corresponds[OF a "1.prems"(2)] have cor: "corresponds r1 st1 new ?pure" .
      show ?thesis
      proof (cases ?pure)
        case (Inl e)
        from corresponds_Inl[OF Inl cor] "1.prems" lt True a have "res = Inl (Thrown e)"
          by (simp add: h_compose_trivial.simps[of i new st])
        with Inl True lt len nth show ?thesis
          by (simp add: compose_trivial.simps[of i "erase_subs s"] corresponds_def)
      next
        case (Inr s1)
        from corresponds_Inr[OF Inr cor] obtain arr1 where r1: "r1 = Inr ()"
          and s1: "store st1 new = Some arr1" and e1: "erase_subs arr1 = s1" by blast
        from "1.prems" lt True a r1 have "h_compose_trivial (Suc i) new st1 = (res, st')"
          by (simp add: h_compose_trivial.simps[of i new st])
        from "1.IH"(1)[OF "1.prems"(2) lt True a[symmetric] r1 this s1] e1 Inr True lt len nth
        show ?thesis by (simp add: compose_trivial.simps[of i "erase_subs s"])
      qed
    qed
  qed
qed

lemma h_cloneSubstitution_corresponds:
  assumes "h_cloneSubstitution sub st = (res, st')" and "store st sub = Some arr"
  shows "case cloneSubstitution (erase_subs arr) of
           Inl e \<Rightarrow> res = Inl (Thrown e)
         | Inr s \<Rightarrow> res = Inr (next_id st) \<and>
                    (\<exists>arr'. store st' (next_id st) = Some arr' \<and> erase_subs arr' = s)"
proof -
  obtain new st1 where a: "h_new_Substitution st = (new, st1)" by (cases "h_new_Substitution st")
  from h_new_Substitution_frame[OF a] have A: "new = next_id st" "store st1 new = Some []" by simp_all
  obtain r2 st2 where b: "h_cloneSubstitution_loop arr new st1 = (r2, st2)"
    by (cases "h_cloneSubstitution_loop arr new st1")
  let ?pure = "cloneSubstitution_loop (erase_subs arr) (erase_subs [])"
  from h_cloneSubstitution_loop_corresponds[OF b A(2)] have cor: "corresponds r2 st2 new ?pure" .
  have e: "erase_subs [] = []" by (simp add: erase_subs_def)
  show ?thesis
  proof (cases ?pure)
    case (Inl e')
    from corresponds_Inl[OF Inl cor] assms a b have "res = Inl (Thrown e')"
      by (simp add: h_cloneSubstitution_def)
    with Inl e show ?thesis by (simp add: cloneSubstitution_def)
  next
    case (Inr s)
    from corresponds_Inr[OF Inr cor] obtain arr' where r2: "r2 = Inr ()"
      and s2: "store st2 new = Some arr'" and e2: "erase_subs arr' = s" by blast
    from assms a b r2 have "res = Inr new" "st' = st2" by (simp_all add: h_cloneSubstitution_def)
    with Inr e s2 e2 A(1) show ?thesis by (simp add: cloneSubstitution_def)
  qed
qed

lemma h_compose_corresponds:
  assumes "h_compose this sigma st = (res, st')"
    and "store st this = Some arr1" and "store st sigma = Some arr2" and "sigma < next_id st"
  shows "case compose (erase_subs arr1) (erase_subs arr2) of
           Inl e \<Rightarrow> res = Inl (Thrown e)
         | Inr s \<Rightarrow> \<exists>r arr. res = Inr r \<and> store st' r = Some arr \<and> erase_subs arr = s"
proof (cases "length arr1 = 0")
  case True
  with assms have "h_cloneSubstitution sigma st = (res, st')" by (simp add: h_compose_def)
  from h_cloneSubstitution_corresponds[OF this assms(3)] True show ?thesis
    by (auto simp: compose_def erase_subs_def split: sum.splits)
next
  case False
  then have ne: "length (erase_subs arr1) \<noteq> 0" by (simp add: erase_subs_def)
  have e: "erase_subs [] = []" by (simp add: erase_subs_def)
  obtain new st1 where a: "h_new_Substitution st = (new, st1)" by (cases "h_new_Substitution st")
  from h_new_Substitution_frame[OF a] have A: "new = next_id st" "next_id st1 = Suc (next_id st)"
    "store st1 = (store st)(new \<mapsto> [])" by simp_all
  from A assms(4) have sn: "sigma \<noteq> new" by simp
  from A sn assms(3) have n1: "store st1 new = Some []" and g1: "store st1 sigma = Some arr2" by simp_all
  obtain r2 st2 where b: "h_compose_rewrite arr1 sigma new st1 = (r2, st2)"
    by (cases "h_compose_rewrite arr1 sigma new st1")
  let ?p2 = "compose_rewrite (erase_subs arr1) (erase_subs arr2) []"
  from h_compose_rewrite_corresponds[OF b n1 g1 sn] e have cor2: "corresponds r2 st2 new ?p2" by simp
  have "mutates 0 new st1 st2" using b by (rule h_compose_rewrite_mutates) simp
  then have oc2: "only_changes new st1 st2" by (simp add: mutates_def)
  with g1 sn have g2: "store st2 sigma = Some arr2" by (simp add: only_changes_def)
  from oc2 A have lt2: "new < next_id st2" by (simp add: only_changes_def)
  show ?thesis
  proof (cases ?p2)
    case (Inl e2)
    from corresponds_Inl[OF Inl cor2] assms False a b have "res = Inl (Thrown e2)"
      by (simp add: h_compose_def)
    with Inl ne show ?thesis by (simp add: compose_def)
  next
    case p2: (Inr R)
    from corresponds_Inr[OF p2 cor2] obtain a2 where r2: "r2 = Inr ()"
      and n2: "store st2 new = Some a2" and e2: "erase_subs a2 = R" by blast
    obtain r3 st3 where c: "h_cloneSubstitution sigma st2 = (r3, st3)"
      by (cases "h_cloneSubstitution sigma st2")
    from h_cloneSubstitution_corresponds[OF c g2]
    have cor3: "case cloneSubstitution (erase_subs arr2) of
           Inl e \<Rightarrow> r3 = Inl (Thrown e)
         | Inr s \<Rightarrow> r3 = Inr (next_id st2) \<and>
                    (\<exists>arr'. store st3 (next_id st2) = Some arr' \<and> erase_subs arr' = s)" .
    from h_cloneSubstitution_frame[OF c order_refl] have oc3: "only_changes (next_id st2) st2 st3"
      by simp
    with lt2 n2 have n3: "store st3 new = Some a2" by (simp add: only_changes_def)
    show ?thesis
    proof (cases "cloneSubstitution (erase_subs arr2)")
      case (Inl e3)
      with cor3 assms False a b r2 c have "res = Inl (Thrown e3)" by (simp add: h_compose_def)
      with Inl p2 ne show ?thesis by (simp add: compose_def)
    next
      case p3: (Inr C)
      with cor3 obtain a3 where r3: "r3 = Inr (next_id st2)"
        and g3: "store st3 (next_id st2) = Some a3" and e3: "erase_subs a3 = C" by auto
      let ?ns = "next_id st2"
      from n3 have ta3: "the_array st3 new = a2" by (simp add: the_array_def)
      obtain r4 st4 where d: "h_compose_restrict a2 ?ns st3 = (r4, st4)"
        by (cases "h_compose_restrict a2 ?ns st3")
      let ?p4 = "compose_restrict R C"
      from h_compose_restrict_corresponds[OF d g3] e2 e3 have cor4: "corresponds r4 st4 ?ns ?p4" by simp
      have "mutates 0 ?ns st3 st4" using d by (rule h_compose_restrict_mutates)
      then have "only_changes ?ns st3 st4" by (simp add: mutates_def)
      with lt2 n3 have n4: "store st4 new = Some a2" by (simp add: only_changes_def)
      show ?thesis
      proof (cases ?p4)
        case (Inl e4)
        from corresponds_Inl[OF Inl cor4] assms False a b r2 c r3 ta3 d have "res = Inl (Thrown e4)"
          by (simp add: h_compose_def)
        with Inl p2 p3 ne show ?thesis by (simp add: compose_def)
      next
        case p4: (Inr S)
        from corresponds_Inr[OF p4 cor4] obtain a4 where r4: "r4 = Inr ()"
          and g4: "store st4 ?ns = Some a4" and e4: "erase_subs a4 = S" by blast
        obtain r5 st5 where f: "h_compose_trivial 0 new st4 = (r5, st5)"
          by (cases "h_compose_trivial 0 new st4")
        let ?p5 = "compose_trivial 0 R"
        from h_compose_trivial_corresponds[OF f n4] e2 have cor5: "corresponds r5 st5 new ?p5" by simp
        have "mutates 0 new st4 st5" using f by (rule h_compose_trivial_mutates)
        then have "only_changes new st4 st5" by (simp add: mutates_def)
        with lt2 g4 have g5: "store st5 ?ns = Some a4" by (simp add: only_changes_def)
        then have ta5: "the_array st5 ?ns = a4" by (simp add: the_array_def)
        show ?thesis
        proof (cases ?p5)
          case (Inl e5)
          from corresponds_Inl[OF Inl cor5] assms False a b r2 c r3 ta3 d r4 f
          have "res = Inl (Thrown e5)" by (simp add: h_compose_def)
          with Inl p2 p3 p4 ne show ?thesis by (simp add: compose_def)
        next
          case p5: (Inr P)
          from corresponds_Inr[OF p5 cor5] obtain a5 where r5: "r5 = Inr ()"
            and n5: "store st5 new = Some a5" and e5: "erase_subs a5 = P" by blast
          obtain r6 st6 where g: "h_compose_union a4 new st5 = (r6, st6)"
            by (cases "h_compose_union a4 new st5")
          let ?p6 = "compose_union S P"
          from h_compose_union_corresponds[OF g n5] e4 e5 have cor6: "corresponds r6 st6 new ?p6" by simp
          show ?thesis
          proof (cases ?p6)
            case (Inl e6)
            from corresponds_Inl[OF Inl cor6] assms False a b r2 c r3 ta3 d r4 f r5 ta5 g
            have "res = Inl (Thrown e6)" by (simp add: h_compose_def)
            with Inl p2 p3 p4 p5 ne show ?thesis by (simp add: compose_def)
          next
            case p6: (Inr s)
            from corresponds_Inr[OF p6 cor6] obtain a6 where r6: "r6 = Inr ()"
              and n6: "store st6 new = Some a6" and e6: "erase_subs a6 = s" by blast
            from assms False a b r2 c r3 ta3 d r4 f r5 ta5 g r6
            have "res = Inr new" "st' = st6" by (simp_all add: h_compose_def)
            with n6 e6 p2 p3 p4 p5 p6 ne show ?thesis by (simp add: compose_def)
          qed
        qed
      qed
    qed
  qed
qed

lemma valid_subs_empty: "valid_subs []"
  by (simp add: valid_subs_def)

lemma add_valid: "valid_subs s \<Longrightarrow> add v t s = Inr s' \<Longrightarrow> valid_subs s'"
proof -
  assume v: "valid_subs s" and a: "add v t s = Inr s'"
  from a obtain n u where "v = JTerm (Variable n)" and "t = JTerm u"
    by (auto simp: add_def split: jsval.splits jsterm.splits)
  with a have "Variable n \<notin> fst ` set s" and "s' = s @ [(Variable n, u)]"
    by (auto simp: add_Variable split: if_splits)
  with v show ?thesis by (auto simp: valid_subs_def)
qed

lemma remove_valid: "valid_subs s \<Longrightarrow> remove v s = Inr s' \<Longrightarrow> valid_subs s'"
proof -
  assume v: "valid_subs s" and r: "remove v s = Inr s'"
  from r obtain n where "v = JTerm (Variable n)"
    by (auto simp: remove_def split: jsval.splits jsterm.splits)
  with v r have "s' = filter (\<lambda>vt. fst vt \<noteq> Variable n) s"
    by (simp add: remove_distinct valid_subs_def)
  with v show ?thesis by (simp add: valid_subs_filter)
qed

section \<open>The published example\<close>

text \<open>
  Claim C1. The example of the README, built through the constructors: with \<open>f/1\<close>,
  \<open>g/2\<close>, \<open>sigma1 = {x -> g(y,c)}\<close> and \<open>sigma2 = {y -> a}\<close>, the composition
  \<open>sigma1.compose(sigma2)\<close> renders as \<^verbatim>\<open>{x -> g(a,c), y -> a}\<close>, and applied to
  \<open>f(x)\<close> it yields a term that renders as \<^verbatim>\<open>f(g(a,c))\<close>.
\<close>

theorem readme_example:
  "new_Func (JString ''f'') (JNumber (Finite 1)) = Inr \<lparr>symbol_name = ''f'', arity = 1\<rparr> \<and>
   new_Func (JString ''g'') (JNumber (Finite 2)) = Inr \<lparr>symbol_name = ''g'', arity = 2\<rparr> \<and>
   call \<lparr>symbol_name = ''g'', arity = 2\<rparr> [JTerm (Variable ''y''), JTerm (Constant ''c'')]
     = Inr (FuncTerm \<lparr>symbol_name = ''g'', arity = 2\<rparr> [Variable ''y'', Constant ''c'']) \<and>
   call \<lparr>symbol_name = ''f'', arity = 1\<rparr> [JTerm (Variable ''x'')]
     = Inr (FuncTerm \<lparr>symbol_name = ''f'', arity = 1\<rparr> [Variable ''x'']) \<and>
   add (JTerm (Variable ''x''))
       (JTerm (FuncTerm \<lparr>symbol_name = ''g'', arity = 2\<rparr> [Variable ''y'', Constant ''c''])) []
     = Inr [(Variable ''x'', FuncTerm \<lparr>symbol_name = ''g'', arity = 2\<rparr> [Variable ''y'', Constant ''c''])] \<and>
   add (JTerm (Variable ''y'')) (JTerm (Constant ''a'')) [] = Inr [(Variable ''y'', Constant ''a'')] \<and>
   compose [(Variable ''x'', FuncTerm \<lparr>symbol_name = ''g'', arity = 2\<rparr> [Variable ''y'', Constant ''c''])]
           [(Variable ''y'', Constant ''a'')]
     = Inr [(Variable ''x'', FuncTerm \<lparr>symbol_name = ''g'', arity = 2\<rparr> [Constant ''a'', Constant ''c'']),
            (Variable ''y'', Constant ''a'')] \<and>
   toString_subs [(Variable ''x'', FuncTerm \<lparr>symbol_name = ''g'', arity = 2\<rparr> [Constant ''a'', Constant ''c'']),
                  (Variable ''y'', Constant ''a'')]
     = ''{x -> g(a,c), y -> a}'' \<and>
   toString (apply_subst
       [(Variable ''x'', FuncTerm \<lparr>symbol_name = ''g'', arity = 2\<rparr> [Constant ''a'', Constant ''c'']),
        (Variable ''y'', Constant ''a'')]
       (FuncTerm \<lparr>symbol_name = ''f'', arity = 1\<rparr> [Variable ''x'']))
     = ''f(g(a,c))''"
proof (intro conjI)
  show "new_Func (JString ''f'') (JNumber (Finite 1)) = Inr \<lparr>symbol_name = ''f'', arity = 1\<rparr>"
    by (simp add: new_Func_def)
  show "new_Func (JString ''g'') (JNumber (Finite 2)) = Inr \<lparr>symbol_name = ''g'', arity = 2\<rparr>"
    by (simp add: new_Func_def)
  show "call \<lparr>symbol_name = ''g'', arity = 2\<rparr> [JTerm (Variable ''y''), JTerm (Constant ''c'')]
     = Inr (FuncTerm \<lparr>symbol_name = ''g'', arity = 2\<rparr> [Variable ''y'', Constant ''c''])"
    by (simp add: call_def new_Func_def new_FuncTerm_def)
  show "call \<lparr>symbol_name = ''f'', arity = 1\<rparr> [JTerm (Variable ''x'')]
     = Inr (FuncTerm \<lparr>symbol_name = ''f'', arity = 1\<rparr> [Variable ''x''])"
    by (simp add: call_def new_Func_def new_FuncTerm_def)
  show "add (JTerm (Variable ''x''))
       (JTerm (FuncTerm \<lparr>symbol_name = ''g'', arity = 2\<rparr> [Variable ''y'', Constant ''c''])) []
     = Inr [(Variable ''x'', FuncTerm \<lparr>symbol_name = ''g'', arity = 2\<rparr> [Variable ''y'', Constant ''c''])]"
    by (simp add: add_def)
  show "add (JTerm (Variable ''y'')) (JTerm (Constant ''a'')) [] = Inr [(Variable ''y'', Constant ''a'')]"
    by (simp add: add_def)
  show "compose [(Variable ''x'', FuncTerm \<lparr>symbol_name = ''g'', arity = 2\<rparr> [Variable ''y'', Constant ''c''])]
           [(Variable ''y'', Constant ''a'')]
     = Inr [(Variable ''x'', FuncTerm \<lparr>symbol_name = ''g'', arity = 2\<rparr> [Constant ''a'', Constant ''c'']),
            (Variable ''y'', Constant ''a'')]"
    by (simp add: compose_def cloneSubstitution_def add_def contains_def remove_def
          indexToRemove_def compose_trivial.simps)
  show "toString_subs [(Variable ''x'', FuncTerm \<lparr>symbol_name = ''g'', arity = 2\<rparr> [Constant ''a'', Constant ''c'']),
                  (Variable ''y'', Constant ''a'')]
     = ''{x -> g(a,c), y -> a}''"
    by (simp add: toString_subs_def)
  show "toString (apply_subst
       [(Variable ''x'', FuncTerm \<lparr>symbol_name = ''g'', arity = 2\<rparr> [Constant ''a'', Constant ''c'']),
        (Variable ''y'', Constant ''a'')]
       (FuncTerm \<lparr>symbol_name = ''f'', arity = 1\<rparr> [Variable ''x'']))
     = ''f(g(a,c))''"
    by simp
qed

section \<open>Structural equality of applications\<close>

text \<open>
  Claim C2, evaluated on the code. \<^verbatim>\<open>FuncTerm.isEqual\<close> never looks at the symbols and
  pairs the arguments of the receiver with whatever stands at the same index of the other
  term: \<open>f(x)\<close> and \<open>h(x)\<close> are reported equal although \<^verbatim>\<open>Func.isEqual\<close> tells
  \<open>f\<close> and \<open>h\<close> apart, and the application \<open>k()\<close> of a nullary symbol is reported
  equal to \<open>h(x)\<close> although the numbers of arguments differ.
\<close>

theorem FuncTerm_isEqual_ignores_symbol:
  "call \<lparr>symbol_name = ''f'', arity = 1\<rparr> [JTerm (Variable ''x'')]
     = Inr (FuncTerm \<lparr>symbol_name = ''f'', arity = 1\<rparr> [Variable ''x'']) \<and>
   call \<lparr>symbol_name = ''h'', arity = 1\<rparr> [JTerm (Variable ''x'')]
     = Inr (FuncTerm \<lparr>symbol_name = ''h'', arity = 1\<rparr> [Variable ''x'']) \<and>
   \<not> Func_isEqual \<lparr>symbol_name = ''f'', arity = 1\<rparr> (JFunc \<lparr>symbol_name = ''h'', arity = 1\<rparr>) \<and>
   isEqual (FuncTerm \<lparr>symbol_name = ''f'', arity = 1\<rparr> [Variable ''x''])
           (JTerm (FuncTerm \<lparr>symbol_name = ''h'', arity = 1\<rparr> [Variable ''x''])) \<and>
   call \<lparr>symbol_name = ''k'', arity = 0\<rparr> [] = Inr (FuncTerm \<lparr>symbol_name = ''k'', arity = 0\<rparr> []) \<and>
   isEqual (FuncTerm \<lparr>symbol_name = ''k'', arity = 0\<rparr> [])
           (JTerm (FuncTerm \<lparr>symbol_name = ''h'', arity = 1\<rparr> [Variable ''x'']))"
  by (simp add: call_def new_Func_def new_FuncTerm_def)

section \<open>Composition\<close>

text \<open>
  Claim C9. For valid substitutions (every key a variable, no key twice, which is what
  \<^verbatim>\<open>add\<close> maintains), no call of \<^verbatim>\<open>add\<close> inside \<^verbatim>\<open>compose\<close> meets a key
  that is already present: \<^verbatim>\<open>compose\<close> returns a substitution and throws nothing, and
  the substitution it returns is valid again.
\<close>

theorem compose_no_duplicate_key:
  assumes "valid_subs this" and "valid_subs sigma"
  shows "\<exists>r. compose this sigma = Inr r \<and> valid_subs r"
  using assms by (simp add: compose_closed_form compose_valid_result)

theorem compose_no_duplicate_key_witness:
  "valid_subs [(Variable ''x'', Variable ''y''), (Variable ''y'', Constant ''a'')] \<and>
   valid_subs [(Variable ''y'', Constant ''b''), (Variable ''z'', Variable ''x'')] \<and>
   (\<exists>r. compose [(Variable ''x'', Variable ''y''), (Variable ''y'', Constant ''a'')]
              [(Variable ''y'', Constant ''b''), (Variable ''z'', Variable ''x'')] = Inr r \<and> valid_subs r)"
proof -
  have a: "valid_subs [(Variable ''x'', Variable ''y''), (Variable ''y'', Constant ''a'')]"
    by (simp add: valid_subs_def)
  have b: "valid_subs [(Variable ''y'', Constant ''b''), (Variable ''z'', Variable ''x'')]"
    by (simp add: valid_subs_def)
  from a b compose_no_duplicate_key[OF a b] show ?thesis by blast
qed

text \<open>
  Claim C4. When a variable is bound in both operands, its binding in the second operand
  is deleted from the copy that \<^verbatim>\<open>compose\<close> unites with the rewritten first operand
  (the copy \<open>S\<close> no longer contains the variable); the result has no key twice, and
  whenever it binds the variable, the bound term is the first operand's term rewritten
  under the second operand.
\<close>

theorem compose_domain_precedence:
  assumes "valid_subs this" and "valid_subs sigma"
    and "(Variable n, t1) \<in> set this" and "(Variable n, t2) \<in> set sigma"
  shows "\<exists>r R C S. compose this sigma = Inr r \<and>
           (\<forall>t. (Variable n, t) \<in> set r \<longrightarrow> t = apply_subst sigma t1) \<and>
           distinct (map fst r) \<and>
           compose_rewrite this sigma [] = Inr R \<and> cloneSubstitution sigma = Inr C \<and>
           compose_restrict R C = Inr S \<and> contains (JTerm (Variable n)) S = Inr False"
proof -
  let ?R = "rewritten this sigma"
  let ?S = "filter (\<lambda>vt. fst vt \<notin> fst ` set this) sigma"
  let ?r = "skipping_prune ?R @ ?S"
  have c: "compose this sigma = Inr ?r" using assms(1,2) by (rule compose_closed_form)
  have d: "distinct (map fst ?r)"
    using compose_valid_result[OF assms(1,2)] by (simp add: valid_subs_def)
  have R: "compose_rewrite this sigma [] = Inr ?R"
    using assms(1) by (simp add: compose_rewrite_valid)
  have C: "cloneSubstitution sigma = Inr sigma" using assms(2) by (rule cloneSubstitution_valid)
  have keys: "fst ` set ?R = fst ` set this"
    using rewritten_keys[of this sigma] by (metis list.set_map)
  have S: "compose_restrict ?R sigma = Inr ?S"
    using valid_subs_rewritten[OF assms(1), of sigma] assms(2)
    by (simp add: compose_restrict_valid valid_subs_def keys)
  have inthis: "Variable n \<in> fst ` set this" using assms(3) by force
  have "fst ` set ?S \<inter> fst ` set this = {}" by auto
  with inthis have "Variable n \<notin> fst ` set ?S" by blast
  then have nS: "contains (JTerm (Variable n)) ?S = Inr False"
    by (simp only: contains_Variable)
  have t: "\<forall>t. (Variable n, t) \<in> set ?r \<longrightarrow> t = apply_subst sigma t1"
  proof (intro allI impI)
    fix t assume "(Variable n, t) \<in> set ?r"
    with inthis have "(Variable n, t) \<in> set (skipping_prune ?R)" by auto
    then have "(Variable n, t) \<in> set ?R" using skipping_prune_subset by blast
    then obtain t' where "(Variable n, t') \<in> set this" and t: "t = apply_subst sigma t'"
      by (auto simp: rewritten_def)
    with assms(1,3) have "t' = t1" by (blast dest: valid_subs_unique)
    with t show "t = apply_subst sigma t1" by simp
  qed
  from c t d R C S nS show ?thesis by blast
qed

theorem compose_domain_precedence_witness:
  "valid_subs [(Variable ''x'', Variable ''y''), (Variable ''y'', Constant ''b'')] \<and>
   valid_subs [(Variable ''y'', Constant ''a'')] \<and>
   (Variable ''y'', Constant ''b'') \<in> set [(Variable ''x'', Variable ''y''), (Variable ''y'', Constant ''b'')] \<and>
   (Variable ''y'', Constant ''a'') \<in> set [(Variable ''y'', Constant ''a'')] \<and>
   (\<exists>r. compose [(Variable ''x'', Variable ''y''), (Variable ''y'', Constant ''b'')]
              [(Variable ''y'', Constant ''a'')] = Inr r \<and>
        (\<forall>t. (Variable ''y'', t) \<in> set r \<longrightarrow> t = apply_subst [(Variable ''y'', Constant ''a'')] (Constant ''b'')))"
proof -
  have a: "valid_subs [(Variable ''x'', Variable ''y''), (Variable ''y'', Constant ''b'')]"
    by (simp add: valid_subs_def)
  have b: "valid_subs [(Variable ''y'', Constant ''a'')]"
    by (simp add: valid_subs_def)
  have c: "(Variable ''y'', Constant ''b'') \<in> set [(Variable ''x'', Variable ''y''), (Variable ''y'', Constant ''b'')]"
    by simp
  have d: "(Variable ''y'', Constant ''a'') \<in> set [(Variable ''y'', Constant ''a'')]"
    by simp
  from compose_domain_precedence[OF a b c d] a b c d show ?thesis by blast
qed




text \<open>
  Claim C5, evaluated on the code. The substitution \<open>{x -> x, y -> y}\<close> is accepted by
  \<^verbatim>\<open>add\<close>; composing it with the empty substitution on the right leaves the trivial
  binding \<open>y -> y\<close> in the result, because the loop that removes trivial bindings
  deletes the entry for \<open>x\<close> from the array it is walking and thereby steps over the
  entry for \<open>y\<close>.
\<close>

theorem compose_right_identity_skips:
  "add (JTerm (Variable ''x'')) (JTerm (Variable ''x'')) [] = Inr [(Variable ''x'', Variable ''x'')] \<and>
   add (JTerm (Variable ''y'')) (JTerm (Variable ''y'')) [(Variable ''x'', Variable ''x'')]
     = Inr [(Variable ''x'', Variable ''x''), (Variable ''y'', Variable ''y'')] \<and>
   compose [(Variable ''x'', Variable ''x''), (Variable ''y'', Variable ''y'')] []
     = Inr [(Variable ''y'', Variable ''y'')] \<and>
   isEqual (Variable ''y'') (JTerm (Variable ''y''))"
  by (simp add: compose_def cloneSubstitution_def add_def contains_def remove_def
        indexToRemove_def compose_trivial.simps)

section \<open>Construction of symbols and applications\<close>

text \<open>
  Claim C6, as amended. The arity check lives in the callable symbol only: invoking a
  symbol with a number of arguments other than its arity throws, and a term that such an
  invocation returns has exactly as many arguments as the arity of its symbol. The
  constructor \<^verbatim>\<open>FuncTerm\<close> itself succeeds exactly when its first argument is a
  \<^verbatim>\<open>Func\<close> and its second one an array of terms; it never compares the length of
  the array with the arity.
\<close>

theorem call_enforces_arity:
  "(int (length args) \<noteq> arity f \<longrightarrow>
      call f args = Inl (WrongNumberOfArguments (arity f) (length args))) \<and>
   (\<forall>t. call f args = Inr t \<longrightarrow>
      (\<exists>as. t = FuncTerm f as \<and> args = map JTerm as \<and> int (length as) = arity f)) \<and>
   (\<forall>t. new_FuncTerm fn xs = Inr t \<longleftrightarrow>
      (\<exists>g as. fn = JFunc g \<and> xs = JArray (map JTerm as) \<and> t = FuncTerm g as))"
proof (intro conjI allI impI)
  assume "int (length args) \<noteq> arity f"
  then show "call f args = Inl (WrongNumberOfArguments (arity f) (length args))"
    by (simp add: call_def)
next
  fix t assume a: "call f args = Inr t"
  then have len: "int (length args) = arity f"
    by (auto simp: call_def split: if_splits)
  with a have "new_FuncTerm (JFunc f) (JArray args) = Inr t"
    by (simp add: call_def new_Func_integer func_rebuild)
  then obtain as where "args = map JTerm as" and "t = FuncTerm f as"
    by (auto simp: new_FuncTerm_iff)
  with len show "\<exists>as. t = FuncTerm f as \<and> args = map JTerm as \<and> int (length as) = arity f"
    by auto
next
  fix t show "new_FuncTerm fn xs = Inr t \<longleftrightarrow>
      (\<exists>g as. fn = JFunc g \<and> xs = JArray (map JTerm as) \<and> t = FuncTerm g as)"
    by (rule new_FuncTerm_iff)
qed

theorem call_enforces_arity_witness:
  "call \<lparr>symbol_name = ''f'', arity = 1\<rparr> [JTerm (Variable ''x''), JTerm (Variable ''y'')]
     = Inl (WrongNumberOfArguments 1 2) \<and>
   (\<exists>as. FuncTerm \<lparr>symbol_name = ''f'', arity = 1\<rparr> [Variable ''x''] = FuncTerm \<lparr>symbol_name = ''f'', arity = 1\<rparr> as \<and>
      [JTerm (Variable ''x'')] = map JTerm as \<and> int (length as) = 1)"
proof -
  have a: "int (length [JTerm (Variable ''x''), JTerm (Variable ''y'')]) \<noteq> arity \<lparr>symbol_name = ''f'', arity = 1\<rparr>"
    by simp
  have b: "call \<lparr>symbol_name = ''f'', arity = 1\<rparr> [JTerm (Variable ''x'')]
           = Inr (FuncTerm \<lparr>symbol_name = ''f'', arity = 1\<rparr> [Variable ''x''])"
    by (simp add: call_def new_Func_def new_FuncTerm_def)
  from a call_enforces_arity[of "[JTerm (Variable ''x''), JTerm (Variable ''y'')]" "\<lparr>symbol_name = ''f'', arity = 1\<rparr>"]
  have 1: "call \<lparr>symbol_name = ''f'', arity = 1\<rparr> [JTerm (Variable ''x''), JTerm (Variable ''y'')]
     = Inl (WrongNumberOfArguments 1 2)" by simp
  from b call_enforces_arity[of "[JTerm (Variable ''x'')]" "\<lparr>symbol_name = ''f'', arity = 1\<rparr>"]
  have 2: "\<exists>as. FuncTerm \<lparr>symbol_name = ''f'', arity = 1\<rparr> [Variable ''x''] = FuncTerm \<lparr>symbol_name = ''f'', arity = 1\<rparr> as \<and>
      [JTerm (Variable ''x'')] = map JTerm as \<and> int (length as) = 1" by simp
  from 1 2 show ?thesis by blast
qed

text \<open>
  The direct construction of an application of a unary symbol to two arguments succeeds.
\<close>

theorem new_FuncTerm_no_arity_check:
  "new_FuncTerm (JFunc \<lparr>symbol_name = ''f'', arity = 1\<rparr>)
       (JArray [JTerm (Variable ''x''), JTerm (Variable ''y'')])
     = Inr (FuncTerm \<lparr>symbol_name = ''f'', arity = 1\<rparr> [Variable ''x'', Variable ''y''])"
  by (simp add: new_FuncTerm_def)

text \<open>
  Claim C7, as amended. \<^verbatim>\<open>new Func(name, arity)\<close> throws when the name is not a string
  (tested first) and when the arity is not an integer in the sense of
  \<^verbatim>\<open>Number.isInteger\<close>; it accepts every integer, the negative ones included, and
  stores it as the arity.
\<close>

theorem new_Func_checks:
  "((\<forall>s. name \<noteq> JString s) \<longrightarrow> new_Func name ar = Inl FunctionNameMustBeString) \<and>
   (\<not> Number_isInteger ar \<longrightarrow> new_Func (JString s) ar = Inl ArityMustBeInteger) \<and>
   (Number_isInteger ar \<longleftrightarrow> (\<exists>n. ar = JNumber (Finite (of_int n)))) \<and>
   new_Func (JString s) (JNumber (Finite (of_int n))) = Inr \<lparr>symbol_name = s, arity = n\<rparr>"
proof (intro conjI impI)
  assume "\<forall>s. name \<noteq> JString s"
  then show "new_Func name ar = Inl FunctionNameMustBeString"
    by (cases name) (simp_all add: new_Func_def)
next
  assume "\<not> Number_isInteger ar"
  then show "new_Func (JString s) ar = Inl ArityMustBeInteger"
    by (simp add: new_Func_def)
next
  show "Number_isInteger ar \<longleftrightarrow> (\<exists>n. ar = JNumber (Finite (of_int n)))"
    by (rule Number_isInteger_iff)
next
  show "new_Func (JString s) (JNumber (Finite (of_int n))) = Inr \<lparr>symbol_name = s, arity = n\<rparr>"
    by (rule new_Func_integer)
qed

theorem new_Func_checks_witness:
  "new_Func (JNumber (Finite 7)) (JNumber (Finite 1)) = Inl FunctionNameMustBeString \<and>
   new_Func (JString ''f'') (JNumber (Finite (1 / 2))) = Inl ArityMustBeInteger \<and>
   new_Func (JString ''f'') (JString ''1'') = Inl ArityMustBeInteger \<and>
   new_Func (JString ''f'') (JNumber (Finite (of_int (- 1)))) = Inr \<lparr>symbol_name = ''f'', arity = - 1\<rparr>"
proof -
  have half: "\<not> Number_isInteger (JNumber (Finite (1 / 2)))" by code_simp
  from new_Func_checks[of "JNumber (Finite 7)" "JNumber (Finite 1)"]
  have 1: "new_Func (JNumber (Finite 7)) (JNumber (Finite 1)) = Inl FunctionNameMustBeString" by simp
  from half new_Func_checks[of _ "JNumber (Finite (1 / 2))" "''f''"]
  have 2: "new_Func (JString ''f'') (JNumber (Finite (1 / 2))) = Inl ArityMustBeInteger" by blast
  from new_Func_checks[of _ "JString ''1''" "''f''"]
  have 3: "new_Func (JString ''f'') (JString ''1'') = Inl ArityMustBeInteger" by simp
  from new_Func_checks[of _ _ "''f''" "- 1"]
  have 4: "new_Func (JString ''f'') (JNumber (Finite (of_int (- 1)))) = Inr \<lparr>symbol_name = ''f'', arity = - 1\<rparr>"
    by blast
  from 1 2 3 4 show ?thesis by blast
qed

text \<open>
  A symbol of arity \<open>-1\<close> is constructed without error.
\<close>

theorem new_Func_negative_arity:
  "new_Func (JString ''f'') (JNumber (Finite (- 1))) = Inr \<lparr>symbol_name = ''f'', arity = - 1\<rparr>"
  by code_simp

section \<open>Adding a binding\<close>

text \<open>
  Claim C10. \<^verbatim>\<open>add\<close> succeeds for every variable that the substitution does not bind
  yet and every term, also when the term is the variable itself, and appends the pair;
  such a pair is trivial. \<^verbatim>\<open>add\<close> succeeds exactly when its first argument is a
  \<^verbatim>\<open>Variable\<close>, its second argument is a term, and no key is equal to the variable.
\<close>

theorem add_accepts_trivial_binding:
  "(contains (JTerm (Variable n)) s = Inr False \<longrightarrow>
      add (JTerm (Variable n)) (JTerm t) s = Inr (s @ [(Variable n, t)]) \<and>
      add (JTerm (Variable n)) (JTerm (Variable n)) s = Inr (s @ [(Variable n, Variable n)])) \<and>
   trivial (Variable n, Variable n) \<and>
   ((\<exists>s'. add v u s = Inr s') \<longleftrightarrow>
      (\<exists>m t'. v = JTerm (Variable m) \<and> u = JTerm t' \<and> contains v s = Inr False))"
proof (intro conjI impI)
  assume "contains (JTerm (Variable n)) s = Inr False"
  then have "Variable n \<notin> fst ` set s" by (simp add: contains_Variable)
  then show "add (JTerm (Variable n)) (JTerm t) s = Inr (s @ [(Variable n, t)])"
    and "add (JTerm (Variable n)) (JTerm (Variable n)) s = Inr (s @ [(Variable n, Variable n)])"
    by (simp_all add: add_Variable)
next
  show "trivial (Variable n, Variable n)" by (simp add: trivial_def)
next
  show "(\<exists>s'. add v u s = Inr s') \<longleftrightarrow>
      (\<exists>m t'. v = JTerm (Variable m) \<and> u = JTerm t' \<and> contains v s = Inr False)"
  proof
    assume "\<exists>s'. add v u s = Inr s'"
    then obtain s' where a: "add v u s = Inr s'" ..
    then obtain m where v: "v = JTerm (Variable m)"
      by (auto simp: add_def split: jsval.splits jsterm.splits)
    with a obtain t' where u: "u = JTerm t'"
      by (auto simp: add_def split: jsval.splits)
    from a v u have "Variable m \<notin> fst ` set s"
      by (auto simp: add_Variable split: if_splits)
    with v u show "\<exists>m t'. v = JTerm (Variable m) \<and> u = JTerm t' \<and> contains v s = Inr False"
      by (simp add: contains_Variable)
  next
    assume "\<exists>m t'. v = JTerm (Variable m) \<and> u = JTerm t' \<and> contains v s = Inr False"
    then show "\<exists>s'. add v u s = Inr s'"
      by (auto simp: contains_Variable add_Variable)
  qed
qed

theorem add_accepts_trivial_binding_witness:
  "contains (JTerm (Variable ''x'')) [(Variable ''y'', Constant ''a'')] = Inr False \<and>
   add (JTerm (Variable ''x'')) (JTerm (Variable ''x'')) [(Variable ''y'', Constant ''a'')]
     = Inr [(Variable ''y'', Constant ''a''), (Variable ''x'', Variable ''x'')]"
proof -
  have c: "contains (JTerm (Variable ''x'')) [(Variable ''y'', Constant ''a'')] = Inr False"
    by (simp add: contains_def)
  with add_accepts_trivial_binding[of "''x''" "[(Variable ''y'', Constant ''a'')]"]
  show ?thesis by simp
qed

section \<open>Mutation and sharing\<close>

text \<open>
  Claim C8. Whatever \<^verbatim>\<open>apply\<close> and \<^verbatim>\<open>compose\<close> return or throw, \<^verbatim>\<open>apply\<close>
  leaves every array of every substitution as it was, and \<^verbatim>\<open>compose\<close> leaves the
  array of every substitution that existed before the call as it was; the term objects
  are never written to by the library. On a receiver that exists, \<^verbatim>\<open>apply\<close> returns a
  term none of whose objects is an object of the argument or of the receiver. On valid
  operands that exist, \<^verbatim>\<open>compose\<close> returns a new substitution; receiver and argument
  still hold their arrays, and no object in the array of the result is an object of
  either operand. Without identities, both results are the ones computed on values.
\<close>

theorem apply_compose_leave_operands:
  "(h_apply this t st = (res, st') \<longrightarrow> store st' = store st) \<and>
   (h_compose this sigma st = (res2, st2) \<longrightarrow> (\<forall>b<next_id st. store st2 b = store st b)) \<and>
   (store st this = Some arr1 \<and> ids t \<subseteq> {..<next_id st} \<and> ids_subs arr1 \<subseteq> {..<next_id st} \<longrightarrow>
      (\<exists>r s. h_apply this t st = (Inr r, s) \<and> store s = store st \<and>
         ids r \<inter> (ids t \<union> ids_subs arr1) = {} \<and>
         erase r = apply_subst (erase_subs arr1) (erase t))) \<and>
   (store st this = Some arr1 \<and> store st sigma = Some arr2 \<and>
    this < next_id st \<and> sigma < next_id st \<and>
    ids_subs arr1 \<subseteq> {..<next_id st} \<and> ids_subs arr2 \<subseteq> {..<next_id st} \<and>
    valid_subs (erase_subs arr1) \<and> valid_subs (erase_subs arr2) \<longrightarrow>
      (\<exists>r arr s. h_compose this sigma st = (Inr r, s) \<and>
         store s this = Some arr1 \<and> store s sigma = Some arr2 \<and>
         next_id st \<le> r \<and> store s r = Some arr \<and>
         ids_subs arr \<inter> (ids_subs arr1 \<union> ids_subs arr2) = {} \<and>
         compose (erase_subs arr1) (erase_subs arr2) = Inr (erase_subs arr)))"
proof (intro conjI impI)
  assume "h_apply this t st = (res, st')"
  from h_apply_frame[OF this] show "store st' = store st" by simp
next
  assume "h_compose this sigma st = (res2, st2)"
  from h_compose_frame[OF this] show "\<forall>b<next_id st. store st2 b = store st b" by simp
next
  assume h: "store st this = Some arr1 \<and> ids t \<subseteq> {..<next_id st} \<and> ids_subs arr1 \<subseteq> {..<next_id st}"
  obtain r s where a: "h_apply_subs arr1 t st = (r, s)" by (cases "h_apply_subs arr1 t st")
  with h have b: "h_apply this t st = (Inr r, s)" by (simp add: h_apply_def)
  from h_apply_subs_frame[OF a] have f: "store s = store st" "ids r \<subseteq> {next_id st..<next_id s}"
    "erase r = apply_subst (erase_subs arr1) (erase t)" by simp_all
  from f(2) h have "ids r \<inter> (ids t \<union> ids_subs arr1) = {}" by fastforce
  with b f show "\<exists>r s. h_apply this t st = (Inr r, s) \<and> store s = store st \<and>
         ids r \<inter> (ids t \<union> ids_subs arr1) = {} \<and>
         erase r = apply_subst (erase_subs arr1) (erase t)" by blast
next
  assume h: "store st this = Some arr1 \<and> store st sigma = Some arr2 \<and>
    this < next_id st \<and> sigma < next_id st \<and>
    ids_subs arr1 \<subseteq> {..<next_id st} \<and> ids_subs arr2 \<subseteq> {..<next_id st} \<and>
    valid_subs (erase_subs arr1) \<and> valid_subs (erase_subs arr2)"
  obtain res s where a: "h_compose this sigma st = (res, s)" by (cases "h_compose this sigma st")
  from h have "valid_subs (erase_subs arr1)" "valid_subs (erase_subs arr2)" by simp_all
  then obtain p where p: "compose (erase_subs arr1) (erase_subs arr2) = Inr p"
    by (simp add: compose_closed_form)
  from h have s1: "store st this = Some arr1" and s2: "store st sigma = Some arr2"
    and lt: "sigma < next_id st" by simp_all
  from h_compose_corresponds[OF a s1 s2 lt] p obtain r arr where r: "res = Inr r"
    and sr: "store s r = Some arr" and er: "erase_subs arr = p" by auto
  from h_compose_frame[OF a] r sr have fr: "\<forall>b<next_id st. store s b = store st b"
    and nr: "next_id st \<le> r" and ids: "ids_subs arr \<subseteq> {next_id st..}" by auto
  from fr h have u: "store s this = Some arr1" "store s sigma = Some arr2" by simp_all
  from ids h have "ids_subs arr \<inter> (ids_subs arr1 \<union> ids_subs arr2) = {}" by fastforce
  with a r u nr sr er p
  show "\<exists>r arr s. h_compose this sigma st = (Inr r, s) \<and>
         store s this = Some arr1 \<and> store s sigma = Some arr2 \<and>
         next_id st \<le> r \<and> store s r = Some arr \<and>
         ids_subs arr \<inter> (ids_subs arr1 \<union> ids_subs arr2) = {} \<and>
         compose (erase_subs arr1) (erase_subs arr2) = Inr (erase_subs arr)" by blast
qed

theorem apply_compose_leave_operands_witness:
  "(\<exists>r s. h_apply 0 (HVariable 2 ''y'') example_state = (Inr r, s) \<and> store s = store example_state \<and>
      ids r \<inter> (ids (HVariable 2 ''y'') \<union> ids_subs [(HVariable 1 ''x'', HVariable 2 ''y'')]) = {} \<and>
      erase r = apply_subst (erase_subs [(HVariable 1 ''x'', HVariable 2 ''y'')]) (erase (HVariable 2 ''y''))) \<and>
   (\<exists>r arr s. h_compose 0 3 example_state = (Inr r, s) \<and>
      store s 0 = Some [(HVariable 1 ''x'', HVariable 2 ''y'')] \<and>
      store s 3 = Some [(HVariable 4 ''y'', HConstant 5 ''a'')] \<and>
      next_id example_state \<le> r \<and> store s r = Some arr \<and>
      ids_subs arr \<inter> (ids_subs [(HVariable 1 ''x'', HVariable 2 ''y'')]
                        \<union> ids_subs [(HVariable 4 ''y'', HConstant 5 ''a'')]) = {} \<and>
      compose (erase_subs [(HVariable 1 ''x'', HVariable 2 ''y'')])
              (erase_subs [(HVariable 4 ''y'', HConstant 5 ''a'')]) = Inr (erase_subs arr))"
proof -
  let ?a1 = "[(HVariable 1 ''x'', HVariable 2 ''y'')]"
  let ?a2 = "[(HVariable 4 ''y'', HConstant 5 ''a'')]"
  have s1: "store example_state 0 = Some ?a1" by (simp add: example_state_def)
  have s2: "store example_state 3 = Some ?a2" by (simp add: example_state_def)
  have n: "next_id example_state = 6" by (simp add: example_state_def)
  have i0: "ids (HVariable 2 ''y'') \<subseteq> {..<next_id example_state}" by (simp add: n)
  have i1: "ids_subs ?a1 \<subseteq> {..<next_id example_state}" by (simp add: n ids_subs_def)
  have i2: "ids_subs ?a2 \<subseteq> {..<next_id example_state}" by (simp add: n ids_subs_def)
  have v1: "valid_subs (erase_subs ?a1)" by (simp add: valid_subs_def erase_subs_def)
  have v2: "valid_subs (erase_subs ?a2)" by (simp add: valid_subs_def erase_subs_def)
  have l: "(0::nat) < next_id example_state" "(3::nat) < next_id example_state" by (simp_all add: n)
  from apply_compose_leave_operands[of 0 "HVariable 2 ''y''" example_state _ _ 3 _ _ ?a1 ?a2]
    s1 s2 i0 i1 i2 v1 v2 l
  show ?thesis by blast
qed

end
